theory Spec2Isabelle
  imports Complex_Main "HOL-Library.Word"
begin

section \<open>JavaScript numbers\<close>

text \<open>
  Every number of the program is an IEEE 754 binary64 value. A finite binary64 value is a
  rational, so numbers are modelled as \<open>rat\<close>, and each arithmetic operator of the source
  is the exact operation followed by \<open>fl\<close>, rounding to the nearest binary64 value with
  ties to the even significand. The model covers the normal range (no overflow, no
  subnormal results): the program's numbers are pixel components, counts and ratios of
  such. The one division whose divisor can be zero is written out where it occurs.
  Sums, differences and products of integers below \<open>2^53\<close> are exact in binary64 and
  are computed on \<open>int\<close> and \<open>nat\<close>.
\<close>

definition pow2 :: "int \<Rightarrow> rat" where
  "pow2 e = (if 0 \<le> e then 2 ^ nat e else 1 / 2 ^ nat (- e))"

function bitlen :: "int \<Rightarrow> int" where
  "bitlen n = (if n \<le> 0 then 0 else 1 + bitlen (n div 2))"
  by pat_completeness auto
termination
  by (relation "measure nat") auto

declare bitlen.simps [simp del]

definition expo :: "rat \<Rightarrow> int" where
  \<comment> \<open>the binary exponent of a non-zero \<open>x\<close>: \<open>2^e \<le> |x| < 2^(e+1)\<close>\<close>
  "expo x = (let (p, q) = quotient_of \<bar>x\<bar>; d = bitlen p - bitlen q
             in if pow2 d \<le> \<bar>x\<bar> then d else d - 1)"

definition rne :: "rat \<Rightarrow> int" where
  \<comment> \<open>nearest integer, a tie going to the even one\<close>
  "rne m = (let f = \<lfloor>m\<rfloor>; r = m - of_int f
            in if r < 1 / 2 then f else if 1 / 2 < r then f + 1
               else if even f then f else f + 1)"

definition fl :: "rat \<Rightarrow> rat" where
  \<comment> \<open>53 significant bits: the unit in the last place of \<open>x\<close> is \<open>2^(e - 52)\<close>\<close>
  "fl x = (if x = 0 then 0 else let u = pow2 (expo x - 52) in of_int (rne (x / u)) * u)"

definition fadd :: "rat \<Rightarrow> rat \<Rightarrow> rat" where "fadd x y = fl (x + y)"
definition fsub :: "rat \<Rightarrow> rat \<Rightarrow> rat" where "fsub x y = fl (x - y)"
definition fmul :: "rat \<Rightarrow> rat \<Rightarrow> rat" where "fmul x y = fl (x * y)"

definition fdiv :: "rat \<Rightarrow> rat \<Rightarrow> rat" where
  \<comment> \<open>\<open>x / y\<close> for \<open>y \<noteq> 0\<close>\<close>
  "fdiv x y = fl (x / y)"

definition lit :: "rat \<Rightarrow> rat" where
  \<comment> \<open>a decimal literal of the source denotes the nearest binary64 value\<close>
  "lit d = fl d"

definition js_rem :: "rat \<Rightarrow> rat \<Rightarrow> rat" where
  \<comment> \<open>the operator \<open>%\<close>: the remainder has the sign of the dividend and is exact\<close>
  "js_rem x y = (let q = x / y; t = (if 0 \<le> q then \<lfloor>q\<rfloor> else \<lceil>q\<rceil>) in x - y * of_int t)"

definition js_round :: "rat \<Rightarrow> rat" where
  \<comment> \<open>\<open>Math.round\<close>: the nearest integer, a tie going towards \<open>+\<infinity>\<close>\<close>
  "js_round x = of_int \<lfloor>x + 1 / 2\<rfloor>"

section \<open>Skin classifier\<close>

type_synonym byte = "8 word"

text \<open>
  \<open>isSkinPixel\<close> on the values of three bytes of the pixel buffer. The hue computation of
  the source (the block from \<open>let h = 0\<close> to \<open>if (h < 0) h += 360\<close>) is \<open>hue\<close>.
  In \<open>nr / ng\<close> the divisor is zero when \<open>g = 0\<close>: the quotient is then \<open>+Infinity\<close> for
  \<open>nr > 0\<close>, which exceeds the literal, and \<open>NaN\<close> for \<open>nr = 0\<close>, which compares false.
\<close>

definition hue :: "int \<Rightarrow> int \<Rightarrow> int \<Rightarrow> rat" where
  "hue r g b =
    (let mx = max r (max g b); mn = min r (min g b); dif = mx - mn
     in if dif \<noteq> 0 then
          let h = (if mx = r then js_rem (fdiv (of_int (g - b)) (of_int dif)) 6
                   else if mx = g then fadd (fdiv (of_int (b - r)) (of_int dif)) 2
                   else fadd (fdiv (of_int (r - g)) (of_int dif)) 4);
              h = fmul h 60
          in if h < 0 then fadd h 360 else h
        else 0)"

definition isSkinPixel :: "int \<Rightarrow> int \<Rightarrow> int \<Rightarrow> bool" where
  "isSkinPixel r g b =
    (let rgbClassifier = (r > 95 \<and> (g > 40 \<and> g < 100) \<and> b > 20 \<and>
           max r (max g b) - min r (min g b) > 15 \<and> \<bar>r - g\<bar> > 15 \<and> r > g \<and> r > b);
         sum = r + g + b
     in if sum = 0 then False
        else
          let nr = fdiv (of_int r) (of_int sum);
              ng = fdiv (of_int g) (of_int sum);
              normRgbClassifier =
                ((if ng = 0 then nr > 0 else fdiv nr ng > lit (1185 / 1000)) \<and>
                 fdiv (of_int (r * b)) (of_int (sum * sum)) > lit (107 / 1000) \<and>
                 fdiv (of_int (r * g)) (of_int (sum * sum)) > lit (112 / 1000));
              h = hue r g b;
              mx = max r (max g b);
              mn = min r (min g b);
              s = (if mx = 0 then 0 else fsub 1 (fmul 3 (fdiv (of_int mn) (of_int sum))));
              hsvClassifier = (h > 0 \<and> h < 35 \<and> s > lit (23 / 100) \<and> s < lit (68 / 100))
          in rgbClassifier \<or> normRgbClassifier \<or> hsvClassifier)"

subsection \<open>The three rules as the specification words them\<close>

definition rgb_rule :: "int \<Rightarrow> int \<Rightarrow> int \<Rightarrow> bool" where
  "rgb_rule r g b \<longleftrightarrow>
     r > 95 \<and> 40 < g \<and> g < 100 \<and> b > 20 \<and> max r (max g b) - min r (min g b) > 15 \<and>
     \<bar>r - g\<bar> > 15 \<and> r > g \<and> r > b"

text \<open>
  The rules are worded over the real numbers: the quotients, the hue and the saturation
  below are exact rationals. The hue is the standard formula on the maximal channel, in
  degrees in \<open>[0, 360)\<close>, and 0 when the maximum equals the minimum; the saturation is
  \<open>1 - 3 \<times> (min / sum)\<close>, and 0 when the sum is 0. For \<open>g = 0\<close> the quotient \<open>nr / ng\<close>
  has no value; the test of \<open>r \<times> g\<close> fails then, so the rule does not hold whatever the
  first test is taken to be.
\<close>

definition spec_norm_rgb :: "int \<Rightarrow> int \<Rightarrow> int \<Rightarrow> bool" where
  "spec_norm_rgb r g b \<longleftrightarrow>
     (let sum = r + g + b; nr = (of_int r / of_int sum :: rat); ng = (of_int g / of_int sum :: rat)
      in sum \<noteq> 0 \<and> nr / ng > 1185 / 1000 \<and>
         (of_int (r * b) / of_int (sum * sum) :: rat) > 107 / 1000 \<and>
         (of_int (r * g) / of_int (sum * sum) :: rat) > 112 / 1000)"

definition rmod :: "rat \<Rightarrow> rat \<Rightarrow> rat" where
  \<comment> \<open>the remainder in \<open>[0, m)\<close>\<close>
  "rmod x m = x - m * of_int \<lfloor>x / m\<rfloor>"

definition spec_hue :: "int \<Rightarrow> int \<Rightarrow> int \<Rightarrow> rat" where
  "spec_hue r g b =
    (let mx = max r (max g b); mn = min r (min g b); dif = mx - mn
     in if mx = mn then 0
        else if mx = r then 60 * rmod (of_int (g - b) / of_int dif) 6
        else if mx = g then 60 * (of_int (b - r) / of_int dif + 2)
        else 60 * (of_int (r - g) / of_int dif + 4))"

definition spec_saturation :: "int \<Rightarrow> int \<Rightarrow> int \<Rightarrow> rat" where
  "spec_saturation r g b =
    (let sum = r + g + b; mn = min r (min g b)
     in if sum = 0 then 0 else 1 - 3 * (of_int mn / of_int sum))"

definition spec_hsv :: "int \<Rightarrow> int \<Rightarrow> int \<Rightarrow> bool" where
  "spec_hsv r g b \<longleftrightarrow>
     0 < spec_hue r g b \<and> spec_hue r g b < 35 \<and>
     23 / 100 < spec_saturation r g b \<and> spec_saturation r g b < 68 / 100"

definition spec_hsv_closed :: "int \<Rightarrow> int \<Rightarrow> int \<Rightarrow> bool" where
  \<comment> \<open>the HSV rule with the saturation 0.68 itself admitted\<close>
  "spec_hsv_closed r g b \<longleftrightarrow>
     0 < spec_hue r g b \<and> spec_hue r g b < 35 \<and>
     23 / 100 < spec_saturation r g b \<and> spec_saturation r g b \<le> 68 / 100"

text \<open>The values of the variables \<open>normRgbClassifier\<close> and \<open>hsvClassifier\<close> of \<open>isSkinPixel\<close>.\<close>

definition normRgbClassifier :: "int \<Rightarrow> int \<Rightarrow> int \<Rightarrow> bool" where
  "normRgbClassifier r g b =
    (let sum = r + g + b;
         nr = fdiv (of_int r) (of_int sum);
         ng = fdiv (of_int g) (of_int sum)
     in (if ng = 0 then nr > 0 else fdiv nr ng > lit (1185 / 1000)) \<and>
        fdiv (of_int (r * b)) (of_int (sum * sum)) > lit (107 / 1000) \<and>
        fdiv (of_int (r * g)) (of_int (sum * sum)) > lit (112 / 1000))"

definition saturation :: "int \<Rightarrow> int \<Rightarrow> int \<Rightarrow> rat" where
  "saturation r g b =
    (let sum = r + g + b; mx = max r (max g b); mn = min r (min g b)
     in if mx = 0 then 0 else fsub 1 (fmul 3 (fdiv (of_int mn) (of_int sum))))"

definition hsvClassifier :: "int \<Rightarrow> int \<Rightarrow> int \<Rightarrow> bool" where
  "hsvClassifier r g b =
    (hue r g b > 0 \<and> hue r g b < 35 \<and>
     saturation r g b > lit (23 / 100) \<and> saturation r g b < lit (68 / 100))"

text \<open>
  The nearest integer to \<open>a / b\<close> for \<open>0 < b\<close>, a tie going to the even one, on the
  integers; and the binary64 evaluation of \<open>nr / ng > 1.185\<close> for \<open>r = 237\<close>, \<open>g = 200\<close>
  and the sum \<open>sm\<close>, where the exact quotient is 1.185 itself.
\<close>

definition rdiv :: "int \<Rightarrow> int \<Rightarrow> int" where
  "rdiv a b = (let f = a div b; m = a mod b
               in if 2 * m < b then f else if b < 2 * m then f + 1
                  else if even f then f else f + 1)"

definition tieCheck :: "int \<Rightarrow> bool" where
  "tieCheck sm \<longleftrightarrow>
     (let n1 = rdiv (237 * 2 ^ 54) sm; n2 = rdiv (200 * 2 ^ 54) sm
      in 0 < n2 \<and> n2 \<le> n1 \<and> n1 < 2 * n2 \<and> rdiv (n1 * 2 ^ 52) n2 \<le> rdiv (1185 * 2 ^ 52) 1000)"


subsection \<open>Results and the decoded image\<close>

record ImageAnalysisResult =
  isExplicit :: bool
  skinPercentage :: rat
  confidence :: rat

datatype fault = Fault string

text \<open>
  What \<open>fetch\<close> and \<open>sharp\<close> hand to the scan: the raw buffer \<open>data\<close> and, from
  \<open>info\<close>, the width, height and channel count.
\<close>

record RawImage =
  pixelData :: "byte list"
  width :: nat
  height :: nat
  channels :: nat

subsection \<open>The pixel scan\<close>

text \<open>
  \<open>data[i]\<close> beyond the end of the buffer is \<open>undefined\<close>. With an undefined
  component every comparison of \<open>isSkinPixel\<close> is false (the sum, the maximum and the
  hue are \<open>NaN\<close>), so the pixel is not skin.
\<close>

definition byteAt :: "byte list \<Rightarrow> nat \<Rightarrow> int option" where
  "byteAt d i = (if i < length d then Some (uint (d ! i)) else None)"

definition skinAt :: "byte list \<Rightarrow> nat \<Rightarrow> bool" where
  "skinAt d i =
    (case (byteAt d i, byteAt d (i + 1), byteAt d (i + 2)) of
       (Some r, Some g, Some b) \<Rightarrow> isSkinPixel r g b
     | _ \<Rightarrow> False)"

record ScanState =
  skinPixels :: nat
  totalPixels :: nat
  skinRegions :: "(nat \<times> nat) list"

text \<open>
  The \<open>for\<close> loop of \<open>analyzeImageForExplicitContent\<close>, from offset \<open>i\<close> in steps of
  \<open>channels * 8\<close>. With \<open>channels = 0\<close> the source loop can run forever; the result
  \<open>None\<close> stands for that. The offset is a multiple of \<open>channels\<close>, so \<open>i / channels\<close>
  is an integer and the coordinates are computed on \<open>nat\<close>.
\<close>

partial_function (option) scanFrom :: "RawImage \<Rightarrow> nat \<Rightarrow> ScanState \<Rightarrow> ScanState option" where
  "scanFrom img i st =
    (if i < length (pixelData img) then
       let st1 = st\<lparr>totalPixels := totalPixels st + 1\<rparr>;
           st2 = (if skinAt (pixelData img) i
                  then st1\<lparr>skinPixels := skinPixels st1 + 1,
                           skinRegions := skinRegions st1 @
                             [((i div channels img) mod width img,
                               (i div channels img) div width img)]\<rparr>
                  else st1)
       in if totalPixels st2 > 100 \<and>
             fdiv (of_nat (skinPixels st2)) (of_nat (totalPixels st2)) > lit (35 / 100)
          then Some st2
          else scanFrom img (i + channels img * 8) st2
     else Some st)"

declare scanFrom.simps [code]

definition scanStart :: ScanState where
  "scanStart = \<lparr>skinPixels = 0, totalPixels = 0, skinRegions = []\<rparr>"

subsection \<open>The verdict\<close>

text \<open>The statements after the loop, on the final counters.\<close>

definition skinVerdict :: "ScanState \<Rightarrow> ImageAnalysisResult" where
  "skinVerdict st =
    (let skinPercentage =
           (if totalPixels st > 0
            then fmul (fdiv (of_nat (skinPixels st)) (of_nat (totalPixels st))) 100 else 0);
         hasLargeSkinRegions = (length (skinRegions st) > 30 \<and> skinPercentage > 15);
         isExplicit = (skinPercentage > 35 \<or> (skinPercentage > 25 \<and> hasLargeSkinRegions));
         confidence = (if skinPercentage > 40 then lit (9 / 10)
                       else if skinPercentage > 30 then lit (7 / 10)
                       else if skinPercentage > 20 then lit (5 / 10)
                       else lit (3 / 10));
         confidence = (if hasLargeSkinRegions then fadd confidence (lit (2 / 10)) else confidence);
         confidence = min confidence 1
     in \<lparr>isExplicit = isExplicit,
         skinPercentage = fdiv (js_round (fmul skinPercentage 100)) 100,
         confidence = fdiv (js_round (fmul confidence 100)) 100\<rparr>)"

definition failedSkinResult :: ImageAnalysisResult where
  "failedSkinResult = \<lparr>isExplicit = False, skinPercentage = 0, confidence = 0\<rparr>"

text \<open>
  \<open>analyzeImageForExplicitContent\<close>, with fetching and decoding as the collaborator
  \<open>decode\<close>; a fault of the collaborator is caught and gives the zero result.
\<close>

definition analyzeImageForExplicitContent ::
  "(string \<Rightarrow> fault + RawImage) \<Rightarrow> string \<Rightarrow> ImageAnalysisResult option" where
  "analyzeImageForExplicitContent decode imageUrl =
    (case decode imageUrl of
       Inl e \<Rightarrow> Some failedSkinResult
     | Inr img \<Rightarrow> map_option skinVerdict (scanFrom img 0 scanStart))"

subsection \<open>The scan and the verdict as the specification words them\<close>

text \<open>
  Sample \<open>k\<close> is the pixel at byte offset \<open>k * (channels * 8)\<close>, that is every 8th
  pixel; \<open>nSamples\<close> is the number of such offsets inside the buffer.
\<close>

definition stride :: "RawImage \<Rightarrow> nat" where
  "stride img = channels img * 8"

definition nSamples :: "RawImage \<Rightarrow> nat" where
  "nSamples img = (length (pixelData img) + stride img - 1) div stride img"

definition skinCount :: "RawImage \<Rightarrow> nat \<Rightarrow> nat" where
  \<comment> \<open>the skin pixels among the first \<open>k\<close> samples\<close>
  "skinCount img k = length (filter (\<lambda>j. skinAt (pixelData img) (j * stride img)) [0..<k])"

definition exitNow :: "nat \<Rightarrow> nat \<Rightarrow> bool" where
  \<comment> \<open>the early-exit condition on the counters\<close>
  "exitNow s t \<longleftrightarrow> t > 100 \<and> fdiv (of_nat s) (of_nat t) > lit (35 / 100)"

definition rgbAt :: "RawImage \<Rightarrow> nat \<Rightarrow> bool" where
  \<comment> \<open>sample \<open>k\<close> satisfies the RGB rule\<close>
  "rgbAt img k =
    (let d = pixelData img; i = k * stride img
     in case (byteAt d i, byteAt d (i + 1), byteAt d (i + 2)) of
          (Some r, Some g, Some b) \<Rightarrow> rgb_rule r g b
        | _ \<Rightarrow> False)"

definition round2 :: "rat \<Rightarrow> rat" where
  \<comment> \<open>rounding to 2 decimals\<close>
  "round2 x = fdiv (js_round (fmul x 100)) 100"

definition spec_hasLargeSkinRegions :: "nat \<Rightarrow> rat \<Rightarrow> bool" where
  "spec_hasLargeSkinRegions n p \<longleftrightarrow> n > 30 \<and> p > 15"

definition spec_isExplicit :: "nat \<Rightarrow> rat \<Rightarrow> bool" where
  "spec_isExplicit n p \<longleftrightarrow> p > 35 \<or> (p > 25 \<and> spec_hasLargeSkinRegions n p)"

definition spec_tier :: "rat \<Rightarrow> rat" where
  "spec_tier p = (if p > 40 then lit (9 / 10) else if p > 30 then lit (7 / 10)
                  else if p > 20 then lit (5 / 10) else lit (3 / 10))"

definition spec_confidence :: "nat \<Rightarrow> rat \<Rightarrow> rat" where
  \<comment> \<open>the tier, plus 0.2 with large skin regions, clamped to \<open>[0,1]\<close>, rounded\<close>
  "spec_confidence n p =
     round2 (max 0 (min (if spec_hasLargeSkinRegions n p
                         then fadd (spec_tier p) (lit (2 / 10)) else spec_tier p) 1))"

definition rawPercentage :: "nat \<Rightarrow> nat \<Rightarrow> rat" where
  \<comment> \<open>\<open>skinPixels / totalPixels \<times> 100\<close>, before rounding; 0 when nothing was sampled\<close>
  "rawPercentage s t = (if t > 0 then fmul (fdiv (of_nat s) (of_nat t)) 100 else 0)"

definition spec_skinPercentage :: "nat \<Rightarrow> nat \<Rightarrow> rat" where
  \<comment> \<open>\<open>skinPixels / totalPixels \<times> 100\<close> rounded to 2 decimals\<close>
  "spec_skinPercentage s t = round2 (fmul (fdiv (of_nat s) (of_nat t)) 100)"

text \<open>The effect of one iteration of the loop on the counters, for the proofs about the scan.\<close>

definition scanStep :: "RawImage \<Rightarrow> nat \<Rightarrow> ScanState \<Rightarrow> ScanState" where
  "scanStep img i st =
     (let st1 = st\<lparr>totalPixels := totalPixels st + 1\<rparr>
      in if skinAt (pixelData img) i
         then st1\<lparr>skinPixels := skinPixels st1 + 1,
                  skinRegions := skinRegions st1 @
                    [((i div channels img) mod width img, (i div channels img) div width img)]\<rparr>
         else st1)"

definition witnessImage :: RawImage where
  \<comment> \<open>808 pixels of three channels, every pixel \<open>(200, 60, 30)\<close>\<close>
  "witnessImage = \<lparr>pixelData = concat (replicate 808 [200, 60, 30]),
                     width = 101, height = 8, channels = 3\<rparr>"

definition onePixelImage :: RawImage where
  "onePixelImage = \<lparr>pixelData = [200, 60, 30], width = 1, height = 1, channels = 3\<rparr>"

definition scan_152_of_1013 :: ScanState where
  \<comment> \<open>the counters after 1013 samples (a 100 by 81 image) of which 152 are skin\<close>
  "scan_152_of_1013 = \<lparr>skinPixels = 152, totalPixels = 1013, skinRegions = replicate 152 (0, 0)\<rparr>"

section \<open>Text classifier\<close>

record TextAnalysisResult =
  hasExplicitText :: bool
  confidence_text :: rat
  detectedWords :: "string list"
  categories :: "string list"
  extractedText :: string

definition emptyTextAnalysis :: TextAnalysisResult where
  "emptyTextAnalysis = \<lparr>hasExplicitText = False, confidence_text = 0, detectedWords = [],
                          categories = [], extractedText = []\<rparr>"

definition EXPLICIT_KEYWORDS :: "(string \<times> string list) list" where
  "EXPLICIT_KEYWORDS =
    [(''nudity'',
      [''nude'', ''naked'', ''undressed'', ''topless'', ''bottomless'', ''bare'',
       ''exposed'', ''revealing'', ''strip'', ''bikini'', ''underwear'', ''lingerie'']),
     (''sexual'',
      [''sex'', ''sexual'', ''porn'', ''xxx'', ''adult'', ''erotic'', ''intimate'',
       ''orgasm'', ''masturbate'', ''horny'', ''sexy'', ''seduce'', ''arousal'',
       ''pleasure'', ''kinky'', ''fetish'', ''bdsm'', ''escort'', ''hookup'']),
     (''pornography'',
      [''pornography'', ''pornographic'', ''porn'', ''xxx'', ''adult film'',
       ''sex tape'', ''webcam'', ''camgirl'', ''onlyfans'', ''premium content'',
       ''adult content'', ''nsfw'', ''explicit'', ''mature content'']),
     (''violence'',
      [''violence'', ''violent'', ''fight'', ''attack'', ''assault'', ''abuse'',
       ''hit'', ''punch'', ''kick'', ''slap'', ''beat'', ''torture'', ''harm'',
       ''hurt'', ''wound'', ''injure'', ''threat'', ''weapon'', ''gun'', ''knife'']),
     (''gore'',
      [''gore'', ''blood'', ''bleeding'', ''wound'', ''injury'', ''death'', ''dead'',
       ''corpse'', ''murder'', ''kill'', ''suicide'', ''mutilation'', ''dismember'',
       ''brutal'', ''savage'', ''graphic'', ''disturbing'', ''gruesome''])]"

subsection \<open>Characters\<close>

text \<open>
  A text is a list of code units below 256 (the Latin-1 range). \<open>\w\<close> is
  \<open>[A-Za-z0-9_]\<close>; \<open>\s\<close> is tab, line feed, vertical tab, form feed, carriage return,
  space and the no-break space; \<open>toLowerCase\<close> and the case folding of the flag \<open>i\<close>
  move the letters \<open>A-Z\<close> and the accented capitals \<open>192-222\<close> (not the sign 215).
\<close>

definition isWordChar :: "char \<Rightarrow> bool" where
  "isWordChar c =
    (let n = (of_char c :: nat)
     in (65 \<le> n \<and> n \<le> 90) \<or> (97 \<le> n \<and> n \<le> 122) \<or> (48 \<le> n \<and> n \<le> 57) \<or> n = 95)"

definition isSpaceChar :: "char \<Rightarrow> bool" where
  "isSpaceChar c = ((of_char c :: nat) \<in> {9, 10, 11, 12, 13, 32, 160})"

definition toLowerChar :: "char \<Rightarrow> char" where
  "toLowerChar c =
    (let n = (of_char c :: nat)
     in if (65 \<le> n \<and> n \<le> 90) \<or> (192 \<le> n \<and> n \<le> 222 \<and> n \<noteq> 215)
        then char_of (n + 32) else c)"

definition canonicalize :: "char \<Rightarrow> char" where
  \<comment> \<open>the case folding of a regular expression with the flag \<open>i\<close>\<close>
  "canonicalize c =
    (let n = (of_char c :: nat)
     in if (97 \<le> n \<and> n \<le> 122) \<or> (224 \<le> n \<and> n \<le> 254 \<and> n \<noteq> 247)
        then char_of (n - 32) else c)"

subsection \<open>\<open>normalizeText\<close>\<close>

definition toLowerCase :: "string \<Rightarrow> string" where
  "toLowerCase text = map toLowerChar text"

definition replacePunctuation :: "string \<Rightarrow> string" where
  \<comment> \<open>\<open>.replace(/[^\w\s]/g, ' ')\<close>\<close>
  "replacePunctuation text =
     map (\<lambda>c. if \<not> isWordChar c \<and> \<not> isSpaceChar c then CHR '' '' else c) text"

function collapseWhitespace :: "string \<Rightarrow> string" where
  \<comment> \<open>\<open>.replace(/\s+/g, ' ')\<close>\<close>
  "collapseWhitespace [] = []"
| "collapseWhitespace (c # cs) =
     (if isSpaceChar c then CHR '' '' # collapseWhitespace (dropWhile isSpaceChar cs)
      else c # collapseWhitespace cs)"
  by pat_completeness auto
termination
  by (relation "measure length") (auto simp: length_dropWhile_le less_Suc_eq_le)

definition trim :: "string \<Rightarrow> string" where
  "trim text = rev (dropWhile isSpaceChar (rev (dropWhile isSpaceChar text)))"

definition normalizeText :: "string \<Rightarrow> string" where
  "normalizeText text = trim (collapseWhitespace (replacePunctuation (toLowerCase text)))"

subsection \<open>Matching a keyword\<close>

text \<open>
  The pattern is \<open>\b\<close>, the keyword with its metacharacters escaped, \<open>\b\<close>, with the
  flag \<open>i\<close>: the escaped keyword matches itself, letter case apart, and a word boundary
  lies between two positions of which exactly one holds a word character (the positions
  before the start and after the end of the text hold none).
\<close>

definition isWordAt :: "char option \<Rightarrow> bool" where
  "isWordAt c = (case c of None \<Rightarrow> False | Some x \<Rightarrow> isWordChar x)"

definition wordBoundary :: "char option \<Rightarrow> char option \<Rightarrow> bool" where
  "wordBoundary a b = (isWordAt a \<noteq> isWordAt b)"

definition firstChar :: "string \<Rightarrow> char option" where
  "firstChar text = (case text of [] \<Rightarrow> None | c # cs \<Rightarrow> Some c)"

fun matchHere :: "char option \<Rightarrow> string \<Rightarrow> string \<Rightarrow> (char option \<times> string) option" where
  \<comment> \<open>the keyword at the head of the text: the last character consumed and the rest\<close>
  "matchHere lastc [] text = Some (lastc, text)"
| "matchHere lastc (k # ks) [] = None"
| "matchHere lastc (k # ks) (c # cs) =
     (if canonicalize k = canonicalize c then matchHere (Some c) ks cs else None)"

definition matchAt :: "char option \<Rightarrow> string \<Rightarrow> string \<Rightarrow> bool" where
  \<comment> \<open>a match starting at the head of \<open>text\<close>, with \<open>prev\<close> the character before it\<close>
  "matchAt prev text keyword =
    (wordBoundary prev (firstChar text) \<and>
     (case matchHere prev keyword text of
        None \<Rightarrow> False
      | Some (lastc, rest) \<Rightarrow> wordBoundary lastc (firstChar rest)))"

fun searchFrom :: "char option \<Rightarrow> string \<Rightarrow> string \<Rightarrow> bool" where
  "searchFrom prev [] keyword = matchAt prev [] keyword"
| "searchFrom prev (c # cs) keyword =
     (matchAt prev (c # cs) keyword \<or> searchFrom (Some c) cs keyword)"

definition regexTest :: "string \<Rightarrow> string \<Rightarrow> bool" where
  \<comment> \<open>\<open>regex.test(normalizedText)\<close>\<close>
  "regexTest keyword text = searchFrom None text keyword"

fun startsWith :: "string \<Rightarrow> string \<Rightarrow> bool" where
  "startsWith text [] = True"
| "startsWith [] (k # ks) = False"
| "startsWith (c # cs) (k # ks) = (c = k \<and> startsWith cs ks)"

fun includes_str :: "string \<Rightarrow> string \<Rightarrow> bool" where
  \<comment> \<open>\<open>normalizedText.includes(keyword)\<close>\<close>
  "includes_str [] keyword = startsWith [] keyword"
| "includes_str (c # cs) keyword = (startsWith (c # cs) keyword \<or> includes_str cs keyword)"

subsection \<open>\<open>analyzeTextContent\<close>\<close>

definition setAdd :: "'a list \<Rightarrow> 'a \<Rightarrow> 'a list" where
  \<comment> \<open>\<open>Set.add\<close>, the set kept in insertion order\<close>
  "setAdd xs x = (if x \<in> set xs then xs else xs @ [x])"

text \<open>
  The three mutable variables of \<open>analyzeTextContent\<close>: \<open>detectedWords\<close>,
  \<open>categories\<close> and \<open>totalMatches\<close>.
\<close>

type_synonym matches = "string list \<times> string list \<times> nat"

definition checkKeyword :: "string \<Rightarrow> string \<Rightarrow> matches \<Rightarrow> string \<Rightarrow> matches" where
  "checkKeyword normalizedText category acc keyword =
    (case acc of (detected, cats, totalMatches) \<Rightarrow>
       if regexTest keyword normalizedText \<or> includes_str normalizedText keyword
       then (detected @ [keyword], setAdd cats category, totalMatches + 1)
       else acc)"

definition checkCategory :: "string \<Rightarrow> matches \<Rightarrow> string \<times> string list \<Rightarrow> matches" where
  "checkCategory normalizedText acc entry =
    (case entry of (category, kws) \<Rightarrow>
       foldl (checkKeyword normalizedText category) acc kws)"

definition analyzeTextContent :: "string \<Rightarrow> string list \<times> string list \<times> rat" where
  \<comment> \<open>returns \<open>detectedWords\<close>, \<open>categories\<close> and \<open>confidence\<close>\<close>
  "analyzeTextContent text =
    (let normalizedText = normalizeText text
     in case foldl (checkCategory normalizedText) ([], [], 0) EXPLICIT_KEYWORDS of
          (detected, cats, totalMatches) \<Rightarrow>
            (foldl setAdd [] detected, cats, min (fmul (of_nat totalMatches) (lit (3 / 10))) 1))"

subsection \<open>\<open>analyzeImageText\<close>\<close>

text \<open>
  The OCR engine is the collaborator \<open>recognize\<close>: it fails, or it returns \<open>data.text\<close>,
  which may be absent.
\<close>

definition analyzeImageText ::
  "(string \<Rightarrow> fault + string option) \<Rightarrow> string \<Rightarrow> TextAnalysisResult" where
  "analyzeImageText recognize imageUrl =
    (case recognize imageUrl of
       Inl e \<Rightarrow> emptyTextAnalysis
     | Inr dataText \<Rightarrow>
         let extracted = (case dataText of None \<Rightarrow> [] | Some t \<Rightarrow> trim t)
         in if extracted = [] then emptyTextAnalysis
            else case analyzeTextContent extracted of
              (detected, cats, conf) \<Rightarrow>
                \<lparr>hasExplicitText = (length detected > 0 \<and> conf > lit (3 / 10)),
                 confidence_text = conf, detectedWords = detected, categories = cats,
                 extractedText = extracted\<rparr>)"

subsection \<open>The match count as the specification words it\<close>

definition keywordPairs :: "(string \<times> string) list" where
  \<comment> \<open>every (category, keyword) pair of the catalog\<close>
  "keywordPairs = concat (map (\<lambda>(category, kws). map (Pair category) kws) EXPLICIT_KEYWORDS)"

definition keywordHit :: "string \<Rightarrow> string \<Rightarrow> bool" where
  "keywordHit normalizedText keyword \<longleftrightarrow>
     regexTest keyword normalizedText \<or> includes_str normalizedText keyword"

definition totalMatchCount :: "string \<Rightarrow> nat" where
  "totalMatchCount normalizedText =
     length (filter (\<lambda>(category, keyword). keywordHit normalizedText keyword) keywordPairs)"

section \<open>TTL cache\<close>

text \<open>
  An entry of the cache and the two operations the orchestrators use. \<open>Date.now()\<close> is
  an input: \<open>now\<close>, in milliseconds. The operations on a \<open>Map\<close> do not throw, so the
  \<open>catch\<close> branches of the source are never taken.
\<close>

record 'v CacheEntry =
  data :: 'v
  expiry :: int

type_synonym 'v cache = "string \<rightharpoonup> 'v CacheEntry"

definition safeSetCache :: "string \<Rightarrow> 'v \<Rightarrow> int \<Rightarrow> int \<Rightarrow> 'v cache \<Rightarrow> 'v cache" where
  "safeSetCache key d ttlSeconds now c = c(key \<mapsto> \<lparr>data = d, expiry = now + ttlSeconds * 1000\<rparr>)"

definition safeGetCache :: "string \<Rightarrow> int \<Rightarrow> 'v cache \<Rightarrow> 'v option \<times> 'v cache" where
  "safeGetCache key now c =
    (case c key of
       None \<Rightarrow> (None, c)
     | Some entry \<Rightarrow>
         if now > expiry entry then (None, c(key := None)) else (Some (data entry), c))"

section \<open>Single-image orchestrator\<close>

record ImageAnalysisDetail = ImageAnalysisResult +
  url :: string
  textAnalysis :: "TextAnalysisResult option"

record ExplicitContentAnalysis =
  hasExplicitContent :: bool
  confidence_batch :: rat
  details :: "ImageAnalysisDetail list"
  hasExplicitText_batch :: bool
  textConfidence :: rat
  detectedCategories :: "string list"

text \<open>
  The cache of the module maps keys to values of any type. \<open>analyzeImageFast\<close> writes and
  reads only keys that begin with \<open>image-analysis:\<close> and casts what it reads to
  \<open>ImageAnalysisDetail\<close>; \<open>analyzeImagesBatch\<close> does the same with
  \<open>batch-image-analysis:\<close> and \<open>ExplicitContentAnalysis\<close>. A key of one kind is never a
  key of the other, so the model keeps the entries of each kind in a typed map of their
  own, under their full keys.
\<close>

record Store =
  images :: "ImageAnalysisDetail cache"
  batches :: "ExplicitContentAnalysis cache"

definition imageCacheKey :: "string \<Rightarrow> string" where
  "imageCacheKey imageUrl = ''image-analysis:'' @ imageUrl"

definition failedDetail :: "string \<Rightarrow> ImageAnalysisDetail" where
  "failedDetail imageUrl =
     \<lparr>isExplicit = False, skinPercentage = 0, confidence = 0, url = imageUrl,
      textAnalysis = Some emptyTextAnalysis\<rparr>"

definition cacheDetail :: "string \<Rightarrow> ImageAnalysisDetail \<Rightarrow> int \<Rightarrow> int \<Rightarrow> Store \<Rightarrow> Store" where
  "cacheDetail key result ttlSeconds now st =
     st\<lparr>images := safeSetCache key result ttlSeconds now (images st)\<rparr>"

text \<open>
  The collaborators are parameters: \<open>skinC\<close> is \<open>analyzeImageForExplicitContent\<close> and
  \<open>ocrC\<close> is \<open>withTimeout(analyzeImageText(imageUrl), 3000)\<close>, each returning its result
  or failing (for \<open>ocrC\<close>, also by the timeout). All clock readings of one call are the
  same \<open>now\<close>. \<open>analyzeFresh\<close> is the outer \<open>try\<close> statement of \<open>analyzeImageFast\<close>, entered
  after a cache miss.
\<close>

definition analyzeFresh ::
  "(string \<Rightarrow> fault + ImageAnalysisResult) \<Rightarrow> (string \<Rightarrow> fault + TextAnalysisResult) \<Rightarrow>
   int \<Rightarrow> string \<Rightarrow> Store \<Rightarrow> ImageAnalysisDetail \<times> Store" where
  "analyzeFresh skinC ocrC now imageUrl st =
    (let cacheKey = imageCacheKey imageUrl
     in case skinC imageUrl of
          Inl error \<Rightarrow>
            (let result = failedDetail imageUrl
             in (result, cacheDetail cacheKey result 60 now st))
        | Inr skinAnalysis \<Rightarrow>
            if isExplicit skinAnalysis \<and> confidence skinAnalysis > lit (7 / 10) then
              (let result = \<lparr>isExplicit = True,
                             skinPercentage = skinPercentage skinAnalysis,
                             confidence = confidence skinAnalysis,
                             url = imageUrl,
                             textAnalysis = Some emptyTextAnalysis\<rparr>
               in (result, cacheDetail cacheKey result 300 now st))
            else
              (let text = (case ocrC imageUrl of
                             Inl timeoutError \<Rightarrow> emptyTextAnalysis
                           | Inr t \<Rightarrow> t);
                   combinedConfidence =
                     max (confidence skinAnalysis) (fmul (confidence_text text) (lit (8 / 10)));
                   explicit = (isExplicit skinAnalysis \<or>
                               (hasExplicitText text \<and> confidence_text text > lit (4 / 10)));
                   result = \<lparr>isExplicit = explicit,
                             skinPercentage = skinPercentage skinAnalysis,
                             confidence = combinedConfidence,
                             url = imageUrl,
                             textAnalysis = Some text\<rparr>
               in (result, cacheDetail cacheKey result 300 now st)))"

definition lookupDetail :: "int \<Rightarrow> string \<Rightarrow> Store \<Rightarrow> ImageAnalysisDetail option \<times> Store" where
  \<comment> \<open>the cache check at the start of \<open>analyzeImageFast\<close>\<close>
  "lookupDetail now imageUrl st =
    (case safeGetCache (imageCacheKey imageUrl) now (images st) of
       (cachedResult, c) \<Rightarrow> (cachedResult, st\<lparr>images := c\<rparr>))"

definition analyzeImageFast ::
  "(string \<Rightarrow> fault + ImageAnalysisResult) \<Rightarrow> (string \<Rightarrow> fault + TextAnalysisResult) \<Rightarrow>
   int \<Rightarrow> string \<Rightarrow> Store \<Rightarrow> ImageAnalysisDetail \<times> Store" where
  "analyzeImageFast skinC ocrC now imageUrl st =
    (case lookupDetail now imageUrl st of
       (Some cachedResult, st1) \<Rightarrow> (cachedResult, st1)
     | (None, st1) \<Rightarrow> analyzeFresh skinC ocrC now imageUrl st1)"

section \<open>Batch orchestrator\<close>

fun joinComma :: "string list \<Rightarrow> string" where
  \<comment> \<open>\<open>imageUrls.join(',')\<close>\<close>
  "joinComma [] = []"
| "joinComma [x] = x"
| "joinComma (x # y # ys) = x @ '','' @ joinComma (y # ys)"

definition batchCacheKey :: "string list \<Rightarrow> string" where
  "batchCacheKey imageUrls = ''batch-image-analysis:'' @ joinComma imageUrls"

text \<open>
  \<open>Promise.all(batch.map(url => analyzeImageFast(url)))\<close>. Each call runs up to its
  first \<open>await\<close> when it is made, so the cache checks of all calls of a chunk come first,
  in order (\<open>startAll\<close>); the calls that missed then analyse and store their results
  (\<open>finishAll\<close>), and the results are in the order of the chunk. The stores of a chunk
  are taken in the order of the chunk: with one clock reading and collaborators that are
  functions of the URL, two stores under one key write the same entry.
\<close>

fun startAll :: "int \<Rightarrow> string list \<Rightarrow> Store \<Rightarrow> (string \<times> ImageAnalysisDetail option) list \<times> Store" where
  "startAll now [] st = ([], st)"
| "startAll now (u # us) st =
     (case lookupDetail now u st of
        (r, st1) \<Rightarrow> (case startAll now us st1 of (rs, st2) \<Rightarrow> ((u, r) # rs, st2)))"

fun finishAll ::
  "(string \<Rightarrow> fault + ImageAnalysisResult) \<Rightarrow> (string \<Rightarrow> fault + TextAnalysisResult) \<Rightarrow>
   int \<Rightarrow> (string \<times> ImageAnalysisDetail option) list \<Rightarrow> Store \<Rightarrow>
   ImageAnalysisDetail list \<times> Store" where
  "finishAll skinC ocrC now [] st = ([], st)"
| "finishAll skinC ocrC now ((u, Some cachedResult) # ps) st =
     (case finishAll skinC ocrC now ps st of (ds, st1) \<Rightarrow> (cachedResult # ds, st1))"
| "finishAll skinC ocrC now ((u, None) # ps) st =
     (case analyzeFresh skinC ocrC now u st of
        (d, st1) \<Rightarrow> (case finishAll skinC ocrC now ps st1 of (ds, st2) \<Rightarrow> (d # ds, st2)))"

definition promiseAllFast ::
  "(string \<Rightarrow> fault + ImageAnalysisResult) \<Rightarrow> (string \<Rightarrow> fault + TextAnalysisResult) \<Rightarrow>
   int \<Rightarrow> string list \<Rightarrow> Store \<Rightarrow> ImageAnalysisDetail list \<times> Store" where
  "promiseAllFast skinC ocrC now batch st =
    (case startAll now batch st of (ps, st1) \<Rightarrow> finishAll skinC ocrC now ps st1)"

text \<open>The \<open>for\<close> loop over the chunks of 2: \<open>slice(i, i + 2)\<close> is \<open>take 2 (drop i imageUrls)\<close>.\<close>

function batchLoop ::
  "(string \<Rightarrow> fault + ImageAnalysisResult) \<Rightarrow> (string \<Rightarrow> fault + TextAnalysisResult) \<Rightarrow>
   int \<Rightarrow> string list \<Rightarrow> nat \<Rightarrow> ImageAnalysisDetail list \<Rightarrow> Store \<Rightarrow>
   ImageAnalysisDetail list \<times> Store" where
  "batchLoop skinC ocrC now imageUrls i results st =
    (if i < length imageUrls then
       case promiseAllFast skinC ocrC now (take 2 (drop i imageUrls)) st of
         (batchResults, st1) \<Rightarrow>
           batchLoop skinC ocrC now imageUrls (i + 2) (results @ batchResults) st1
     else (results, st))"
  by pat_completeness auto
termination
  by (relation "measure (\<lambda>(skinC, ocrC, now, imageUrls, i, results, st). length imageUrls - i)") auto

declare batchLoop.simps [simp del]

definition textIsExplicit :: "ImageAnalysisDetail \<Rightarrow> bool" where
  \<comment> \<open>\<open>analysis.textAnalysis?.hasExplicitText && analysis.textAnalysis.confidence > 0.3\<close>\<close>
  "textIsExplicit analysis =
    (case textAnalysis analysis of
       None \<Rightarrow> False
     | Some t \<Rightarrow> hasExplicitText t \<and> confidence_text t > lit (3 / 10))"

definition textConfidenceOf :: "ImageAnalysisDetail \<Rightarrow> rat" where
  \<comment> \<open>\<open>img.textAnalysis?.confidence || 0\<close>\<close>
  "textConfidenceOf img = (case textAnalysis img of None \<Rightarrow> 0 | Some t \<Rightarrow> confidence_text t)"

definition addCategories :: "string list \<Rightarrow> ImageAnalysisDetail \<Rightarrow> string list" where
  "addCategories allCategories analysis =
    (case textAnalysis analysis of
       None \<Rightarrow> allCategories
     | Some t \<Rightarrow> foldl setAdd allCategories (categories t))"

text \<open>
  The statements after the loop. \<open>Math.max(...xs)\<close> is taken of a list that the test
  \<open>length > 0\<close> has found non-empty: the test and the maximum are one \<open>case\<close>.
\<close>

definition aggregate :: "ImageAnalysisDetail list \<Rightarrow> ExplicitContentAnalysis" where
  "aggregate results =
    (let explicitImages = filter isExplicit results;
         imagesWithExplicitText = filter textIsExplicit results;
         allCategories = foldl addCategories [] results;
         hasContent = (length explicitImages > 0);
         hasText = (length imagesWithExplicitText > 0);
         overallConfidence =
           (case explicitImages of
              [] \<Rightarrow> 0
            | img # imgs \<Rightarrow> fold max (map confidence imgs) (confidence img));
         textConf =
           (case imagesWithExplicitText of
              [] \<Rightarrow> 0
            | img # imgs \<Rightarrow> fold max (map textConfidenceOf imgs) (textConfidenceOf img))
     in \<lparr>hasExplicitContent = (hasContent \<or> hasText),
         confidence_batch = max overallConfidence textConf,
         details = results,
         hasExplicitText_batch = hasText,
         textConfidence = textConf,
         detectedCategories = allCategories\<rparr>)"

definition analyzeImagesBatch ::
  "(string \<Rightarrow> fault + ImageAnalysisResult) \<Rightarrow> (string \<Rightarrow> fault + TextAnalysisResult) \<Rightarrow>
   int \<Rightarrow> string list \<Rightarrow> Store \<Rightarrow> ExplicitContentAnalysis \<times> Store" where
  "analyzeImagesBatch skinC ocrC now imageUrls st =
    (let batchKey = batchCacheKey imageUrls
     in case safeGetCache batchKey now (batches st) of
          (Some cachedBatchResult, c) \<Rightarrow> (cachedBatchResult, st\<lparr>batches := c\<rparr>)
        | (None, c) \<Rightarrow>
            (case batchLoop skinC ocrC now imageUrls 0 [] (st\<lparr>batches := c\<rparr>) of
               (results, st1) \<Rightarrow>
                 (let batchResult = aggregate results
                  in (batchResult,
                      st1\<lparr>batches := safeSetCache batchKey batchResult 300 now (batches st1)\<rparr>))))"

text \<open>Stub collaborators and an empty store, for concrete runs.\<close>

definition mildSkin :: "string \<Rightarrow> fault + ImageAnalysisResult" where
  "mildSkin imageUrl = Inr \<lparr>isExplicit = False, skinPercentage = 10, confidence = lit (3 / 10)\<rparr>"

definition strongSkin :: "string \<Rightarrow> fault + ImageAnalysisResult" where
  "strongSkin imageUrl = Inr \<lparr>isExplicit = True, skinPercentage = 50, confidence = lit (9 / 10)\<rparr>"

definition brokenSkin :: "string \<Rightarrow> fault + ImageAnalysisResult" where
  "brokenSkin imageUrl = Inl (Fault ''skin classifier failed'')"

definition explicitOcr :: "string \<Rightarrow> fault + TextAnalysisResult" where
  "explicitOcr imageUrl =
     Inr \<lparr>hasExplicitText = True, confidence_text = lit (6 / 10), detectedWords = [''porn''],
          categories = [''sexual'', ''pornography''], extractedText = ''porn''\<rparr>"

definition timedOutOcr :: "string \<Rightarrow> fault + TextAnalysisResult" where
  "timedOutOcr imageUrl = Inl (Fault ''Analysis timeout'')"

definition emptyStore :: Store where
  "emptyStore = \<lparr>images = Map.empty, batches = Map.empty\<rparr>"

section \<open>Per-pixel test\<close>

subsection \<open>Rounding to binary64\<close>

lemma pow2_powi: "pow2 e = 2 powi e"
  by (simp add: pow2_def power_int_def field_simps)

lemma pow2_pos: "0 < pow2 e"
  by (simp add: pow2_powi)

lemma bitlen_bounds:
  "0 < n \<Longrightarrow> 0 < bitlen n \<and> 2 ^ nat (bitlen n - 1) \<le> n \<and> n < 2 ^ nat (bitlen n)"
proof (induction n rule: bitlen.induct)
  case (1 n)
  show ?case
  proof (cases "n = 1")
    case True
    have "bitlen 1 = 1" by (simp add: bitlen.simps [of 1] bitlen.simps [of 0])
    with True show ?thesis by simp
  next
    case False
    with "1.prems" have h: "0 < n div 2" by simp
    from "1.prems" have n: "\<not> n \<le> 0" by simp
    from "1.IH" [OF n h] have ih: "0 < bitlen (n div 2)"
      "2 ^ nat (bitlen (n div 2) - 1) \<le> n div 2" "n div 2 < 2 ^ nat (bitlen (n div 2))"
      by simp_all
    have b: "bitlen n = 1 + bitlen (n div 2)" using n by (simp add: bitlen.simps [of n])
    have e: "nat (bitlen n - 1) = Suc (nat (bitlen (n div 2) - 1))"
      "nat (bitlen n) = Suc (nat (bitlen (n div 2)))"
      using b ih(1) by simp_all
    have "2 * 2 ^ nat (bitlen (n div 2) - 1) \<le> n" using ih(2) by linarith
    moreover have "n < 2 * 2 ^ nat (bitlen (n div 2))" using ih(3) by linarith
    ultimately show ?thesis using b ih(1) e by simp
  qed
qed

lemma expo_lower:
  assumes "x \<noteq> 0"
  shows "pow2 (expo x) \<le> \<bar>x\<bar>"
proof -
  obtain p q where pq: "quotient_of \<bar>x\<bar> = (p, q)" by (cases "quotient_of \<bar>x\<bar>")
  then have q: "0 < q" and x: "\<bar>x\<bar> = of_int p / of_int q"
    by (simp_all add: quotient_of_denom_pos quotient_of_div)
  have "0 < \<bar>x\<bar>" using assms by simp
  with x q have p: "0 < p" by (simp add: zero_less_divide_iff)
  define d where "d = bitlen p - bitlen q"
  have e: "expo x = (if pow2 d \<le> \<bar>x\<bar> then d else d - 1)"
    by (simp add: expo_def pq d_def Let_def)
  show ?thesis
  proof (cases "pow2 d \<le> \<bar>x\<bar>")
    case True
    with e show ?thesis by simp
  next
    case False
    from bitlen_bounds [OF p] have bp: "0 < bitlen p" "2 ^ nat (bitlen p - 1) \<le> p" by simp_all
    from bitlen_bounds [OF q] have bq: "0 < bitlen q" "q < 2 ^ nat (bitlen q)" by simp_all
    have lp: "(2::rat) powi (bitlen p - 1) \<le> of_int p"
    proof -
      have "(2::rat) powi (bitlen p - 1) = 2 ^ nat (bitlen p - 1)"
        using bp(1) by (simp add: power_int_def)
      also have "\<dots> = of_int (2 ^ nat (bitlen p - 1))" by simp
      also have "\<dots> \<le> of_int p" using bp(2) by (simp only: of_int_le_iff)
      finally show ?thesis .
    qed
    have uq: "of_int q \<le> (2::rat) powi (bitlen q)"
    proof -
      have "(of_int q :: rat) \<le> of_int (2 ^ nat (bitlen q))"
        using bq(2) by (simp only: of_int_le_iff)
      also have "\<dots> = 2 powi (bitlen q)" using bq(1) by (simp add: power_int_def)
      finally show ?thesis .
    qed
    have "pow2 (d - 1) = 2 powi (bitlen p - 1) / 2 powi (bitlen q)"
      by (simp add: pow2_powi d_def power_int_diff)
    also have "\<dots> \<le> of_int p / of_int q"
      using lp uq q p by (intro frac_le) simp_all
    finally show ?thesis using e False x by simp
  qed
qed

lemma rne_error: "\<bar>of_int (rne m) - m\<bar> \<le> 1 / 2"
proof -
  have "of_int \<lfloor>m\<rfloor> \<le> m" "m < of_int \<lfloor>m\<rfloor> + 1" by linarith+
  then show ?thesis
    by (auto simp add: rne_def Let_def split: if_splits)
qed

lemma fl_error: "\<bar>fl x - x\<bar> \<le> \<bar>x\<bar> / 2 ^ 53"
proof (cases "x = 0")
  case True
  then show ?thesis by (simp add: fl_def)
next
  case False
  define u where "u = pow2 (expo x - 52)"
  have u: "0 < u" by (simp add: u_def pow2_pos)
  have f: "fl x = of_int (rne (x / u)) * u"
    using False by (simp add: fl_def u_def Let_def)
  have "fl x - x = (of_int (rne (x / u)) - x / u) * u"
    using u by (simp add: f field_simps)
  then have "\<bar>fl x - x\<bar> = \<bar>of_int (rne (x / u)) - x / u\<bar> * u"
    using u by (simp add: abs_mult)
  also have "\<dots> \<le> 1 / 2 * u"
    using rne_error [of "x / u"] u by (intro mult_right_mono) simp_all
  also have "1 / 2 * u = pow2 (expo x) / 2 ^ 53"
    by (simp add: u_def pow2_powi power_int_diff)
  also have "\<dots> \<le> \<bar>x\<bar> / 2 ^ 53"
    using expo_lower [OF False] by (intro divide_right_mono) simp_all
  finally show ?thesis .
qed


lemma fl_near:
  assumes "\<bar>x\<bar> \<le> m"
  shows "\<bar>fl x - x\<bar> \<le> m / 2 ^ 53"
proof -
  have "\<bar>x\<bar> / 2 ^ 53 \<le> m / (2 ^ 53 :: rat)"
    using assms by (intro divide_right_mono) simp_all
  with fl_error [of x] show ?thesis by linarith
qed

lemma fl_sign: "0 < x \<Longrightarrow> 0 < fl x" "x < 0 \<Longrightarrow> fl x < 0" "fl 0 = 0"
proof -
  have a: "\<bar>x\<bar> / 2 ^ 53 < \<bar>x\<bar>" if "x \<noteq> 0"
    using that by (simp add: field_simps)
  show "0 < x \<Longrightarrow> 0 < fl x" using fl_error [of x] a by (cases "x = 0") (simp, linarith)
  show "x < 0 \<Longrightarrow> fl x < 0" using fl_error [of x] a by (cases "x = 0") (simp, linarith)
  show "fl 0 = 0" by (simp add: fl_def)
qed

lemma frac_gap:
  fixes p q n d :: int
  assumes q: "0 < q" and d: "0 < d" and ne: "p * d \<noteq> n * q"
  shows "1 / of_int (q * d) \<le> \<bar>of_int p / of_int q - (of_int n / of_int d :: rat)\<bar>"
proof -
  have "(of_int p / of_int q - of_int n / of_int d :: rat) = of_int (p * d - n * q) / of_int (q * d)"
    using q d by (simp add: field_simps)
  moreover have "1 \<le> \<bar>p * d - n * q\<bar>" using ne by linarith
  then have "(1 :: rat) \<le> \<bar>of_int (p * d - n * q)\<bar>"
    by (metis of_int_1 of_int_abs of_int_le_iff)
  ultimately show ?thesis
    using q d by (simp add: abs_divide divide_right_mono abs_mult del: of_int_diff of_int_mult)
qed

text \<open>Two numbers in \<open>[0, 1]\<close> that differ by at least \<open>10^-9\<close> keep their order when rounded.\<close>

lemma fl_less_iff:
  assumes "0 \<le> x" "x \<le> 1" "0 \<le> c" "c \<le> 1" "x \<noteq> c \<Longrightarrow> 1 / 10 ^ 9 \<le> \<bar>x - c\<bar>"
  shows "fl c < fl x \<longleftrightarrow> c < x"
proof (cases "x = c")
  case True
  then show ?thesis by simp
next
  case False
  have "\<bar>fl x - x\<bar> \<le> 1 / 2 ^ 53" "\<bar>fl c - c\<bar> \<le> 1 / 2 ^ 53"
    using assms by (intro fl_near; simp)+
  with assms(5) [OF False] show ?thesis by (cases "c < x") (auto simp add: abs_if split: if_splits)
qed

lemma expo_upper:
  assumes "x \<noteq> 0"
  shows "\<bar>x\<bar> < pow2 (expo x + 1)"
proof -
  obtain p q where pq: "quotient_of \<bar>x\<bar> = (p, q)" by (cases "quotient_of \<bar>x\<bar>")
  then have q: "0 < q" and x: "\<bar>x\<bar> = of_int p / of_int q"
    by (simp_all add: quotient_of_denom_pos quotient_of_div)
  have "0 < \<bar>x\<bar>" using assms by simp
  with x q have p: "0 < p" by (simp add: zero_less_divide_iff)
  define d where "d = bitlen p - bitlen q"
  have e: "expo x = (if pow2 d \<le> \<bar>x\<bar> then d else d - 1)"
    by (simp add: expo_def pq d_def Let_def)
  show ?thesis
  proof (cases "pow2 d \<le> \<bar>x\<bar>")
    case False
    with e show ?thesis by simp
  next
    case True
    from bitlen_bounds [OF p] have bp: "0 < bitlen p" "p < 2 ^ nat (bitlen p)" by simp_all
    from bitlen_bounds [OF q] have bq: "0 < bitlen q" "2 ^ nat (bitlen q - 1) \<le> q" by simp_all
    have up: "of_int p < (2::rat) powi (bitlen p)"
    proof -
      have "(of_int p :: rat) < of_int (2 ^ nat (bitlen p))"
        using bp(2) by (simp only: of_int_less_iff)
      also have "\<dots> = 2 powi (bitlen p)" using bp(1) by (simp add: power_int_def)
      finally show ?thesis .
    qed
    have lq: "(2::rat) powi (bitlen q - 1) \<le> of_int q"
    proof -
      have "(2::rat) powi (bitlen q - 1) = of_int (2 ^ nat (bitlen q - 1))"
        using bq(1) by (simp add: power_int_def)
      also have "\<dots> \<le> of_int q" using bq(2) by (simp only: of_int_le_iff)
      finally show ?thesis .
    qed
    have "of_int p / of_int q < (2::rat) powi (bitlen p) / 2 powi (bitlen q - 1)"
      using up lq q p by (intro frac_less) simp_all
    also have "\<dots> = pow2 (d + 1)"
      by (simp add: pow2_powi d_def power_int_diff power_int_add)
    finally show ?thesis using e True x by simp
  qed
qed

lemma pow2_mono: "a \<le> b \<Longrightarrow> pow2 a \<le> pow2 b"
  by (simp add: pow2_powi power_int_increasing)

lemma expo_unique:
  assumes "pow2 e \<le> \<bar>x\<bar>" "\<bar>x\<bar> < pow2 (e + 1)"
  shows "expo x = e"
proof -
  have nz: "x \<noteq> 0" using assms(1) pow2_pos [of e] by auto
  have "\<not> expo x + 1 \<le> e"
  proof
    assume "expo x + 1 \<le> e"
    then have "pow2 (expo x + 1) \<le> pow2 e" by (rule pow2_mono)
    with expo_upper [OF nz] assms(1) show False by linarith
  qed
  moreover have "\<not> e + 1 \<le> expo x"
  proof
    assume "e + 1 \<le> expo x"
    then have "pow2 (e + 1) \<le> pow2 (expo x)" by (rule pow2_mono)
    with expo_lower [OF nz] assms(2) show False by linarith
  qed
  ultimately show ?thesis by linarith
qed

lemma fl_cert:
  assumes "pow2 e \<le> \<bar>x\<bar>" "\<bar>x\<bar> < pow2 (e + 1)"
  shows "fl x = of_int (rne (x / pow2 (e - 52))) * pow2 (e - 52)"
proof -
  have nz: "x \<noteq> 0" using assms(1) pow2_pos [of e] by auto
  then show ?thesis by (simp add: fl_def Let_def expo_unique [OF assms])
qed

lemma rne_quot:
  assumes "0 < b"
  shows "rne (of_int a / of_int b) = rdiv a b"
proof -
  have f: "\<lfloor>(of_int a / of_int b :: rat)\<rfloor> = a div b"
    by (simp add: floor_divide_of_int_eq)
  have "(of_int a :: rat) = of_int (a div b) * of_int b + of_int (a mod b)"
    by (metis of_int_add of_int_mult div_mult_mod_eq)
  then have r: "(of_int a / of_int b :: rat) - of_int (a div b) = of_int (a mod b) / of_int b"
    using assms by (simp add: field_simps del: div_mult_mod_eq)
  have lt: "(of_int (a mod b) / of_int b :: rat) < 1 / 2 \<longleftrightarrow> 2 * (a mod b) < b"
  proof -
    have "(of_int (a mod b) / of_int b :: rat) < 1 / 2 \<longleftrightarrow> (of_int (2 * (a mod b)) :: rat) < of_int b"
      using assms by (simp add: field_simps)
    then show ?thesis by (simp only: of_int_less_iff)
  qed
  have gt: "1 / 2 < (of_int (a mod b) / of_int b :: rat) \<longleftrightarrow> b < 2 * (a mod b)"
  proof -
    have "1 / 2 < (of_int (a mod b) / of_int b :: rat) \<longleftrightarrow> (of_int b :: rat) < of_int (2 * (a mod b))"
      using assms by (simp add: field_simps)
    then show ?thesis by (simp only: of_int_less_iff)
  qed
  show ?thesis
    by (simp only: rne_def rdiv_def Let_def f r lt gt)
qed

subsection \<open>The comparisons of the classifiers, exactly\<close>

lemma isSkinPixel_classifiers:
  "isSkinPixel r g b =
     (r + g + b \<noteq> 0 \<and> (rgb_rule r g b \<or> normRgbClassifier r g b \<or> hsvClassifier r g b))"
  by (simp add: isSkinPixel_def rgb_rule_def normRgbClassifier_def hsvClassifier_def
        saturation_def Let_def)

lemma lit_near: "\<bar>c\<bar> \<le> 1 \<Longrightarrow> \<bar>lit c - c\<bar> \<le> 1 / 2 ^ 53"
  unfolding lit_def using fl_near [of c 1] by simp

text \<open>A quotient of integers against a literal in thousandths.\<close>

lemma quotient_cmp:
  fixes p q n :: int
  assumes "0 \<le> p" "0 < q" "p \<le> q" "q \<le> 1000000" "0 \<le> n" "n \<le> 1000"
  shows "lit (of_int n / 1000) < fdiv (of_int p) (of_int q) \<longleftrightarrow>
         (of_int n / 1000 :: rat) < of_int p / of_int q"
proof -
  let ?x = "of_int p / of_int q :: rat" and ?c = "of_int n / 1000 :: rat"
  have x: "0 \<le> ?x" "?x \<le> 1" using assms by simp_all
  have c: "0 \<le> ?c" "?c \<le> 1" using assms by simp_all
  have gap: "1 / 10 ^ 9 \<le> \<bar>?x - ?c\<bar>" if ne: "?x \<noteq> ?c"
  proof -
    have "p * 1000 \<noteq> n * q"
    proof
      assume "p * 1000 = n * q"
      then have "(of_int (p * 1000) :: rat) = of_int (n * q)" by simp
      then have "?x = ?c" using assms(2) by (simp add: field_simps)
      with ne show False by simp
    qed
    from frac_gap [of q 1000 p n] assms(2) this
    have "1 / of_int (q * 1000) \<le> \<bar>?x - ?c\<bar>" by simp
    moreover have "(of_int (q * 1000) :: rat) \<le> 10 ^ 9"
    proof -
      have "q * 1000 \<le> 10 ^ 9" using assms(4) by simp
      then have "(of_int (q * 1000) :: rat) \<le> of_int (10 ^ 9)" by (simp only: of_int_le_iff)
      then show ?thesis by simp
    qed
    then have "(1 :: rat) / 10 ^ 9 \<le> 1 / of_int (q * 1000)"
      using assms(2) by (intro divide_left_mono) simp_all
    ultimately show ?thesis by linarith
  qed
  show ?thesis
    unfolding lit_def fdiv_def by (rule fl_less_iff [OF x c gap])
qed

subsection \<open>Saturation\<close>

lemma sat_error:
  assumes "0 \<le> a" "a \<le> 1 / 3"
  shows "\<bar>fl (1 - fl (3 * fl a)) - (1 - 3 * a)\<bar> \<le> 9 / 2 ^ 53"
proof -
  have 1: "\<bar>fl a - a\<bar> \<le> 1 / 2 ^ 53"
    using assms by (intro fl_near) simp
  then have "\<bar>3 * fl a\<bar> \<le> 2" using assms by (auto simp add: abs_if split: if_splits)
  then have 2: "\<bar>fl (3 * fl a) - 3 * fl a\<bar> \<le> 2 / 2 ^ 53"
    by (rule fl_near)
  with 1 assms have "\<bar>1 - fl (3 * fl a)\<bar> \<le> 4" by (auto simp add: abs_if split: if_splits)
  then have 3: "\<bar>fl (1 - fl (3 * fl a)) - (1 - fl (3 * fl a))\<bar> \<le> 4 / 2 ^ 53"
    by (rule fl_near)
  from 1 2 3 show ?thesis by (auto simp add: abs_if split: if_splits)
qed

lemma sat_ties:
  "\<not> lit (23 / 100) < fl (1 - fl (3 * fl (77 / 300)))"
  "fl (1 - fl (3 * fl (8 / 75))) < lit (68 / 100)"
  by code_simp+

lemma sat_cmp:
  fixes mn sm :: int
  assumes "0 \<le> mn" "0 < sm" "3 * mn \<le> sm" "sm \<le> 765"
  shows "(lit (23 / 100) < fsub 1 (fmul 3 (fdiv (of_int mn) (of_int sm))) \<and>
          fsub 1 (fmul 3 (fdiv (of_int mn) (of_int sm))) < lit (68 / 100)) \<longleftrightarrow>
         (23 / 100 < 1 - 3 * (of_int mn / of_int sm :: rat) \<and>
          1 - 3 * (of_int mn / of_int sm :: rat) \<le> 68 / 100)"
proof -
  define a where "a = (of_int mn / of_int sm :: rat)"
  define s' where "s' = fl (1 - fl (3 * fl a))"
  define s where "s = 1 - 3 * a"
  have a: "0 \<le> a" "a \<le> 1 / 3"
  proof -
    show "0 \<le> a" using assms by (simp add: a_def)
    have "(of_int (3 * mn) :: rat) \<le> of_int sm" using assms(3) by (simp only: of_int_le_iff)
    then show "a \<le> 1 / 3" using assms(2) by (simp add: a_def field_simps)
  qed
  have err: "\<bar>s' - s\<bar> \<le> 9 / 2 ^ 53"
    unfolding s'_def s_def by (rule sat_error [OF a])
  have l23: "\<bar>lit (23 / 100) - 23 / 100\<bar> \<le> 1 / 2 ^ 53"
    and l68: "\<bar>lit (68 / 100) - 68 / 100\<bar> \<le> 1 / 2 ^ 53"
    by (rule lit_near, simp)+
  have sfrac: "s = of_int (sm - 3 * mn) / of_int sm"
    using assms(2) by (simp add: s_def a_def field_simps)
  have bound: "(1 :: rat) / 76500 \<le> 1 / of_int (sm * 100)"
  proof -
    have "sm * 100 \<le> 76500" using assms(4) by simp
    then have "(of_int (sm * 100) :: rat) \<le> of_int 76500" by (simp only: of_int_le_iff)
    then show ?thesis using assms(2) by (intro divide_left_mono) simp_all
  qed
  have gap: "1 / 76500 \<le> \<bar>s - of_int n / 100\<bar>" if "s \<noteq> of_int n / 100" for n :: int
  proof -
    have "(sm - 3 * mn) * 100 \<noteq> n * sm"
    proof
      assume "(sm - 3 * mn) * 100 = n * sm"
      then have "(of_int ((sm - 3 * mn) * 100) :: rat) = of_int (n * sm)" by simp
      then have "s = of_int n / 100" using assms(2) by (simp add: sfrac field_simps)
      with that show False by simp
    qed
    from frac_gap [of sm 100 "sm - 3 * mn" n] assms(2) this
    have "1 / of_int (sm * 100) \<le> \<bar>s - of_int n / 100\<bar>" by (simp add: sfrac)
    with bound show ?thesis by linarith
  qed
  have lower: "lit (23 / 100) < s' \<longleftrightarrow> 23 / 100 < s"
  proof (cases "s = 23 / 100")
    case True
    then have "a = 77 / 300" by (simp add: s_def)
    then have "s' = fl (1 - fl (3 * fl (77 / 300)))" by (simp only: s'_def)
    then show ?thesis using True sat_ties(1) by simp
  next
    case False
    with gap [of 23] have "1 / 76500 \<le> \<bar>s - 23 / 100\<bar>" by simp
    with err l23 show ?thesis by (auto simp add: abs_if split: if_splits)
  qed
  have upper: "s' < lit (68 / 100) \<longleftrightarrow> s \<le> 68 / 100"
  proof (cases "s = 68 / 100")
    case True
    then have "a = 8 / 75" by (simp add: s_def)
    then have "s' = fl (1 - fl (3 * fl (8 / 75)))" by (simp only: s'_def)
    then show ?thesis using True sat_ties(2) by simp
  next
    case False
    with gap [of 68] have "1 / 76500 \<le> \<bar>s - 68 / 100\<bar>" by simp
    with err l68 False show ?thesis by (auto simp add: abs_if split: if_splits)
  qed
  show ?thesis
    using lower upper by (simp add: s'_def s_def a_def fsub_def fmul_def fdiv_def)
qed

subsection \<open>Hue\<close>

lemma js_rem_small: "\<bar>x\<bar> < 6 \<Longrightarrow> js_rem x 6 = x"
proof -
  assume a: "\<bar>x\<bar> < 6"
  have "\<lfloor>x / 6\<rfloor> = 0" if "0 \<le> x / 6"
    using that a by (intro floor_unique) (simp_all add: abs_if split: if_splits)
  moreover have "\<lceil>x / 6\<rceil> = 0" if "\<not> 0 \<le> x / 6"
    using that a by (intro ceiling_unique) (simp_all add: abs_if split: if_splits)
  ultimately show ?thesis by (simp add: js_rem_def Let_def)
qed

lemma rmod_small: "0 \<le> x \<Longrightarrow> x < 6 \<Longrightarrow> rmod x 6 = x"
proof -
  assume "0 \<le> x" "x < 6"
  then have "\<lfloor>x / 6\<rfloor> = 0" by (intro floor_unique) simp_all
  then show ?thesis by (simp add: rmod_def)
qed

lemma rmod_negative: "- 6 \<le> x \<Longrightarrow> x < 0 \<Longrightarrow> rmod x 6 = x + 6"
proof -
  assume "- 6 \<le> x" "x < 0"
  then have "\<lfloor>x / 6\<rfloor> = - 1" by (intro floor_unique) simp_all
  then show ?thesis by (simp add: rmod_def)
qed

lemma quotient_unit:
  fixes n d :: int
  assumes "0 < d" "\<bar>n\<bar> \<le> d"
  shows "\<bar>of_int n / of_int d :: rat\<bar> \<le> 1"
proof -
  have "(of_int \<bar>n\<bar> :: rat) \<le> of_int d" using assms(2) by (simp only: of_int_le_iff)
  then show ?thesis using assms(1) by (simp add: abs_divide field_simps)
qed

text \<open>The hue of a quotient \<open>q\<close> in \<open>[-1, 1]\<close> shifted by 2 or 4 sixths of the circle is at least 35.\<close>

lemma shifted_hue_large:
  assumes "\<bar>q\<bar> \<le> 1" "k = 2 \<or> k = 4"
  shows "35 \<le> fl (fl (fl q + k) * 60)"
proof -
  have 1: "\<bar>fl q - q\<bar> \<le> 1 / 2 ^ 53" using assms(1) by (intro fl_near) simp
  with assms have "\<bar>fl q + k\<bar> \<le> 6" by (auto simp add: abs_if split: if_splits)
  then have 2: "\<bar>fl (fl q + k) - (fl q + k)\<bar> \<le> 6 / 2 ^ 53" by (rule fl_near)
  with 1 assms have "\<bar>fl (fl q + k) * 60\<bar> \<le> 400" by (auto simp add: abs_if split: if_splits)
  then have 3: "\<bar>fl (fl (fl q + k) * 60) - fl (fl q + k) * 60\<bar> \<le> 400 / 2 ^ 53" by (rule fl_near)
  from 1 2 3 assms show ?thesis by (auto simp add: abs_if split: if_splits)
qed

lemma hue_tie: "\<not> fl (fl (7 / 12) * 60) < 35"
  by code_simp

lemma hue_cmp:
  fixes r g b :: int
  assumes "0 \<le> r" "r \<le> 255" "0 \<le> g" "g \<le> 255" "0 \<le> b" "b \<le> 255"
  shows "(0 < hue r g b \<and> hue r g b < 35) \<longleftrightarrow> (0 < spec_hue r g b \<and> spec_hue r g b < 35)"
proof -
  define mx where "mx = max r (max g b)"
  define mn where "mn = min r (min g b)"
  define dif where "dif = mx - mn"
  have range: "mn \<le> r" "mn \<le> g" "mn \<le> b" "r \<le> mx" "g \<le> mx" "b \<le> mx" "dif \<le> 255" "0 \<le> dif"
    using assms by (auto simp add: mx_def mn_def dif_def)
  show ?thesis
  proof (cases "dif = 0")
    case True
    then have "hue r g b = 0" "spec_hue r g b = 0"
      by (simp_all add: hue_def spec_hue_def mx_def mn_def dif_def Let_def)
    then show ?thesis by simp
  next
    case False
    with range have dpos: "0 < dif" by simp
    have ne: "max r (max g b) \<noteq> min r (min g b)" using False by (simp add: dif_def mx_def mn_def)
    have d: "max r (max g b) - min r (min g b) = dif" by (simp add: dif_def mx_def mn_def)
    consider (red) "mx = r" | (green) "mx \<noteq> r" "mx = g" | (blue) "mx \<noteq> r" "mx \<noteq> g"
      by blast
    then show ?thesis
    proof cases
      case red
      define q where "q = (of_int (g - b) / of_int dif :: rat)"
      have q1: "\<bar>q\<bar> \<le> 1"
        unfolding q_def using range dpos by (intro quotient_unit) (auto simp add: dif_def)
      have e1: "\<bar>fl q - q\<bar> \<le> 1 / 2 ^ 53" using q1 by (intro fl_near) simp
      then have small: "\<bar>fl q\<bar> < 6" using q1 by (auto simp add: abs_if split: if_splits)
      define h1 where "h1 = fl (fl q * 60)"
      have m: "max r (max g b) = r" using red by (simp add: mx_def)
      have ne': "r \<noteq> min r (min g b)" using ne m by simp
      have h: "hue r g b = (if h1 < 0 then fl (h1 + 360) else h1)"
        unfolding hue_def Let_def d
        by (simp add: False m fdiv_def fmul_def fadd_def q_def [symmetric]
              js_rem_small [OF small] h1_def del: of_int_diff)
      have sh: "spec_hue r g b = 60 * rmod q 6"
        unfolding spec_hue_def Let_def d
        by (simp add: ne ne' m q_def del: of_int_diff)
      have "\<bar>fl q * 60\<bar> \<le> 120" using e1 q1 by (auto simp add: abs_if split: if_splits)
      then have e2: "\<bar>h1 - fl q * 60\<bar> \<le> 120 / 2 ^ 53" unfolding h1_def by (rule fl_near)
      consider (neg) "g < b" | (zero) "g = b" | (pos) "b < g" by linarith
      then show ?thesis
      proof cases
        case neg
        then have "q < 0" using dpos by (simp add: q_def divide_neg_pos)
        then have "fl q * 60 < 0" using fl_sign(2) [of q] by simp
        then have n: "h1 < 0" unfolding h1_def by (rule fl_sign(2))
        have "\<bar>h1 + 360\<bar> \<le> 500" using e1 e2 q1 by (auto simp add: abs_if split: if_splits)
        then have "\<bar>fl (h1 + 360) - (h1 + 360)\<bar> \<le> 500 / 2 ^ 53" by (rule fl_near)
        with e1 e2 q1 have "\<not> fl (h1 + 360) < 35" by (auto simp add: abs_if split: if_splits)
        moreover have "rmod q 6 = q + 6"
          using \<open>q < 0\<close> q1 by (intro rmod_negative) (auto simp add: abs_if split: if_splits)
        then have "\<not> spec_hue r g b < 35" using q1 by (auto simp add: sh abs_if split: if_splits)
        ultimately show ?thesis using n by (simp add: h)
      next
        case zero
        then have "q = 0" by (simp add: q_def)
        then have "h1 = 0" by (simp add: h1_def fl_sign(3))
        moreover have "rmod q 6 = 0" using \<open>q = 0\<close> by (simp add: rmod_def)
        ultimately show ?thesis by (simp add: h sh)
      next
        case pos
        then have qp: "0 < q" using dpos by (simp add: q_def)
        then have "0 < fl q * 60" using fl_sign(1) [of q] by simp
        then have p: "0 < h1" unfolding h1_def by (rule fl_sign(1))
        have rm: "rmod q 6 = q" using qp q1 by (intro rmod_small) (auto simp add: abs_if split: if_splits)
        have cmp: "h1 < 35 \<longleftrightarrow> 60 * q < 35"
        proof (cases "q = 7 / 12")
          case True
          then have "h1 = fl (fl (7 / 12) * 60)" by (simp only: h1_def)
          with True hue_tie show ?thesis by simp
        next
          case nt: False
          have "(g - b) * 12 \<noteq> 7 * dif"
          proof
            assume "(g - b) * 12 = 7 * dif"
            then have "(of_int ((g - b) * 12) :: rat) = of_int (7 * dif)" by simp
            then have "q = 7 / 12" using dpos by (simp add: q_def field_simps)
            with nt show False by simp
          qed
          from frac_gap [of dif 12 "g - b" 7] dpos this
          have "1 / of_int (dif * 12) \<le> \<bar>q - 7 / 12\<bar>" by (simp add: q_def)
          moreover have "(1 :: rat) / 3060 \<le> 1 / of_int (dif * 12)"
          proof -
            have "dif * 12 \<le> 3060" using range by simp
            then have "(of_int (dif * 12) :: rat) \<le> of_int 3060" by (simp only: of_int_le_iff)
            then show ?thesis using dpos by (intro divide_left_mono) simp_all
          qed
          ultimately have "1 / 3060 \<le> \<bar>q - 7 / 12\<bar>" by linarith
          with e1 e2 show ?thesis by (auto simp add: abs_if split: if_splits)
        qed
        show ?thesis using p qp cmp by (simp add: h sh rm)
      qed
    next
      case green
      define q where "q = (of_int (b - r) / of_int dif :: rat)"
      have q1: "\<bar>q\<bar> \<le> 1"
        unfolding q_def using range dpos by (intro quotient_unit) (auto simp add: dif_def)
      have big: "35 \<le> fl (fl (fl q + 2) * 60)" using q1 by (intro shifted_hue_large) simp_all
      have m: "max r (max g b) \<noteq> r" "max r (max g b) = g" using green by (simp_all add: mx_def)
      have ne': "g \<noteq> min r (min g b)" "g \<noteq> r" using ne m by simp_all
      have "hue r g b = fl (fl (fl q + 2) * 60)"
        unfolding hue_def Let_def d using big
        by (simp add: False m ne' fdiv_def fmul_def fadd_def q_def [symmetric] del: of_int_diff)
      moreover have "spec_hue r g b = 60 * (q + 2)"
        unfolding spec_hue_def Let_def d
        by (simp add: ne ne' m q_def del: of_int_diff)
      ultimately show ?thesis using big q1 by (auto simp add: abs_if split: if_splits)
    next
      case blue
      define q where "q = (of_int (r - g) / of_int dif :: rat)"
      have q1: "\<bar>q\<bar> \<le> 1"
        unfolding q_def using range dpos by (intro quotient_unit) (auto simp add: dif_def)
      have big: "35 \<le> fl (fl (fl q + 4) * 60)" using q1 by (intro shifted_hue_large) simp_all
      have m: "max r (max g b) \<noteq> r" "max r (max g b) \<noteq> g" using blue by (simp_all add: mx_def)
      have "hue r g b = fl (fl (fl q + 4) * 60)"
        unfolding hue_def Let_def d using big
        by (simp add: False m fdiv_def fmul_def fadd_def q_def [symmetric] del: of_int_diff)
      moreover have "spec_hue r g b = 60 * (q + 4)"
        unfolding spec_hue_def Let_def d
        by (simp add: ne m q_def del: of_int_diff)
      ultimately show ?thesis using big q1 by (auto simp add: abs_if split: if_splits)
    qed
  qed
qed

subsection \<open>The quotient of the normalized channels\<close>

lemma fl_rel:
  assumes "0 \<le> x"
  shows "x - x / 2 ^ 53 \<le> fl x" "fl x \<le> x + x / 2 ^ 53"
  using fl_error [of x] assms by (auto simp add: abs_if split: if_splits)

lemma ratio_cmp:
  fixes r g sm :: int
  assumes "0 \<le> r" "r \<le> 255" "0 < g" "g \<le> 255" "0 < sm" "200 * r \<noteq> 237 * g"
  shows "lit (1185 / 1000) < fdiv (fdiv (of_int r) (of_int sm)) (fdiv (of_int g) (of_int sm))
         \<longleftrightarrow> 237 * g < 200 * r"
proof -
  define X where "X = (of_int r / of_int sm :: rat)"
  define Y where "Y = (of_int g / of_int sm :: rat)"
  define \<rho> where "\<rho> = fl X / fl Y"
  have X: "0 \<le> X" and Y: "0 < Y" using assms by (simp_all add: X_def Y_def)
  have bX: "X - X / 2 ^ 53 \<le> fl X" "fl X \<le> X + X / 2 ^ 53" using fl_rel [OF X] by simp_all
  have bY: "Y - Y / 2 ^ 53 \<le> fl Y" "fl Y \<le> Y + Y / 2 ^ 53" using fl_rel [of Y] Y by simp_all
  have fY: "0 < fl Y" using Y by (rule fl_sign(1))
  have fX: "0 \<le> fl X" using X fl_sign(1) [of X] fl_sign(3) by (cases "X = 0") auto
  have scale: "X \<le> k * Y" if "of_int r \<le> k * (of_int g :: rat)" for k
  proof -
    have "of_int r / of_int sm \<le> k * (of_int g :: rat) / of_int sm"
      using that assms(5) by (intro divide_right_mono) simp_all
    then show ?thesis by (simp add: X_def Y_def)
  qed
  have scale': "k * Y \<le> X" if "k * (of_int g :: rat) \<le> of_int r" for k
  proof -
    have "k * (of_int g :: rat) / of_int sm \<le> of_int r / of_int sm"
      using that assms(5) by (intro divide_right_mono) simp_all
    then show ?thesis by (simp add: X_def Y_def)
  qed
  have gr: "(1 :: rat) \<le> of_int g" "(of_int g :: rat) \<le> 255" "(of_int r :: rat) \<le> 255"
    using assms by simp_all
  have "X \<le> 255 * Y" using gr by (intro scale) linarith
  with bX bY Y have "fl X \<le> 256 * fl Y" by (simp add: field_simps; linarith)
  then have r256: "\<rho> \<le> 256" using fY by (simp add: \<rho>_def pos_divide_le_eq)
  have r0: "0 \<le> \<rho>" using fX fY by (simp add: \<rho>_def)
  have ev: "\<bar>fl \<rho> - \<rho>\<bar> \<le> 256 / 2 ^ 53" using r0 r256 by (intro fl_near) simp
  have lc: "\<bar>lit (1185 / 1000) - 1185 / 1000\<bar> \<le> 2 / 2 ^ 53"
    unfolding lit_def by (intro fl_near) simp
  have goal: "fdiv (fdiv (of_int r) (of_int sm)) (fdiv (of_int g) (of_int sm)) = fl \<rho>"
    by (simp add: fdiv_def \<rho>_def X_def Y_def)
  show ?thesis
  proof (cases "200 * r < 237 * g")
    case True
    then have "200 * r + 1 \<le> 237 * g" by simp
    then have "(of_int (200 * r + 1) :: rat) \<le> of_int (237 * g)" by (simp only: of_int_le_iff)
    then have "(of_int r :: rat) \<le> (237 / 200 - 1 / 51000) * of_int g"
      using gr by (simp add: field_simps; linarith)
    then have "X \<le> (237 / 200 - 1 / 51000) * Y" by (rule scale)
    with bX bY Y have "fl X \<le> 118499 / 100000 * fl Y" by (simp add: field_simps; linarith)
    then have "\<rho> \<le> 118499 / 100000" using fY by (simp add: \<rho>_def pos_divide_le_eq)
    with ev lc have "\<not> lit (1185 / 1000) < fl \<rho>" by (auto simp add: abs_if split: if_splits)
    with True show ?thesis by (simp add: goal)
  next
    case False
    with assms(6) have gt: "237 * g < 200 * r" by simp
    then have "237 * g + 1 \<le> 200 * r" by simp
    then have "(of_int (237 * g + 1) :: rat) \<le> of_int (200 * r)" by (simp only: of_int_le_iff)
    then have "(237 / 200 + 1 / 51000) * of_int g \<le> (of_int r :: rat)"
      using gr by (simp add: field_simps; linarith)
    then have "(237 / 200 + 1 / 51000) * Y \<le> X" by (rule scale')
    with bX bY Y have "118501 / 100000 * fl Y \<le> fl X" by (simp add: field_simps; linarith)
    then have "118501 / 100000 \<le> \<rho>" using fY by (simp add: \<rho>_def pos_le_divide_eq)
    with ev lc have "lit (1185 / 1000) < fl \<rho>" by (auto simp add: abs_if split: if_splits)
    with gt show ?thesis by (simp add: goal)
  qed
qed

lemma tie_checks: "list_all tieCheck [599..650]"
  by code_simp

lemma tie_range:
  "list_all (\<lambda>b. 107 * ((437 + b) * (437 + b)) < 237000 * b \<and>
                  112 * ((437 + b) * (437 + b)) < 47400000 \<longrightarrow> 162 \<le> b \<and> b \<le> 213) [0..255]"
  by code_simp

lemma fl_quarter:
  fixes n sm :: int
  assumes "0 < sm" "sm \<le> 4 * n" "2 * n < sm"
  shows "fl (of_int n / of_int sm) = of_int (rdiv (n * 2 ^ 54) sm) / 2 ^ 54"
proof -
  let ?x = "of_int n / of_int sm :: rat"
  have n: "0 < n" using assms by linarith
  have p: "pow2 (- 2) = 1 / 4" "pow2 (- 2 + 1) = 1 / 2" "pow2 (- 2 - 52) = 1 / 2 ^ 54"
    by (simp_all add: pow2_def)
  have p': "pow2 (- 54) = 1 / 2 ^ 54" by (simp add: pow2_def)
  have a: "\<bar>?x\<bar> = ?x" using n assms(1) by simp
  have lo: "pow2 (- 2) \<le> \<bar>?x\<bar>"
  proof -
    have "(of_int sm :: rat) \<le> of_int (4 * n)" using assms(2) by (simp only: of_int_le_iff)
    then show ?thesis using assms(1) unfolding a p by (simp add: field_simps)
  qed
  have hi: "\<bar>?x\<bar> < pow2 (- 2 + 1)"
  proof -
    have "(of_int (2 * n) :: rat) < of_int sm" using assms(3) by (simp only: of_int_less_iff)
    then show ?thesis using assms(1) unfolding a p by (simp add: field_simps)
  qed
  have "?x / pow2 (- 2 - 52) = of_int (n * 2 ^ 54) / of_int sm"
    unfolding p by simp
  then show ?thesis
    using fl_cert [OF lo hi] rne_quot [OF assms(1), of "n * 2 ^ 54"] by (simp add: p')
qed

lemma fl_unit:
  fixes n1 n2 :: int
  assumes "0 < n2" "n2 \<le> n1" "n1 < 2 * n2"
  shows "fl (of_int n1 / of_int n2) = of_int (rdiv (n1 * 2 ^ 52) n2) / 2 ^ 52"
proof -
  let ?x = "of_int n1 / of_int n2 :: rat"
  have p: "pow2 0 = 1" "pow2 (0 + 1) = 2" "pow2 (0 - 52) = 1 / 2 ^ 52"
    by (simp_all add: pow2_def)
  have p': "pow2 (- 52) = 1 / 2 ^ 52" by (simp add: pow2_def)
  have a: "\<bar>?x\<bar> = ?x" using assms by simp
  have lo: "pow2 0 \<le> \<bar>?x\<bar>"
  proof -
    have "(of_int n2 :: rat) \<le> of_int n1" using assms(2) by (simp only: of_int_le_iff)
    then show ?thesis using assms(1) unfolding a p by (simp add: field_simps)
  qed
  have hi: "\<bar>?x\<bar> < pow2 (0 + 1)"
  proof -
    have "(of_int n1 :: rat) < of_int (2 * n2)" using assms(3) by (simp only: of_int_less_iff)
    then show ?thesis using assms(1) unfolding a p by (simp add: field_simps)
  qed
  have "?x / pow2 (0 - 52) = of_int (n1 * 2 ^ 52) / of_int n2"
    unfolding p by simp
  then show ?thesis
    using fl_cert [OF lo hi] rne_quot [OF assms(1), of "n1 * 2 ^ 52"] by (simp add: p')
qed

lemma ratio_tie:
  fixes sm :: int
  assumes "599 \<le> sm" "sm \<le> 650"
  shows "\<not> lit (1185 / 1000) < fdiv (fdiv 237 (of_int sm)) (fdiv 200 (of_int sm))"
proof -
  define n1 where "n1 = rdiv (237 * 2 ^ 54) sm"
  define n2 where "n2 = rdiv (200 * 2 ^ 54) sm"
  have "sm \<in> {599..650}" using assms by simp
  then have "sm \<in> set [599..650]" by (simp only: set_upto)
  with tie_checks have "tieCheck sm" by (simp only: list_all_iff)
  then have c: "0 < n2" "n2 \<le> n1" "n1 < 2 * n2" "rdiv (n1 * 2 ^ 52) n2 \<le> rdiv (1185 * 2 ^ 52) 1000"
    by (simp_all add: tieCheck_def Let_def n1_def n2_def)
  have sm: "0 < sm" using assms by simp
  have x: "fl (237 / of_int sm) = of_int n1 / 2 ^ 54"
    using fl_quarter [of sm 237] assms sm by (simp add: n1_def)
  have y: "fl (200 / of_int sm) = of_int n2 / 2 ^ 54"
    using fl_quarter [of sm 200] assms sm by (simp add: n2_def)
  have q: "fl (237 / of_int sm) / fl (200 / of_int sm) = (of_int n1 / of_int n2 :: rat)"
    unfolding x y by simp
  have l: "lit (1185 / 1000) = of_int (rdiv (1185 * 2 ^ 52) 1000) / 2 ^ 52"
    using fl_unit [of 1000 1185] by (simp add: lit_def)
  have "fl (of_int n1 / of_int n2) \<le> lit (1185 / 1000)"
    unfolding l fl_unit [OF c(1,2,3)] using c(4)
    by (simp add: divide_le_cancel del: of_int_mult of_int_power)
  then show ?thesis by (simp add: fdiv_def q)
qed

lemma tie_green: "list_all (\<lambda>g. (237 * g) mod 200 = 0 \<longrightarrow> g = 200) [1..255]"
  by code_simp

lemma norm_cmp:
  fixes r g b :: int
  assumes "0 \<le> r" "r \<le> 255" "0 \<le> g" "g \<le> 255" "0 \<le> b" "b \<le> 255" "r + g + b \<noteq> 0"
  shows "normRgbClassifier r g b \<longleftrightarrow> spec_norm_rgb r g b"
proof -
  define sm where "sm = r + g + b"
  have sm: "0 < sm" "sm \<le> 765" "r \<le> sm" "g \<le> sm" "b \<le> sm"
    using assms by (simp_all add: sm_def)
  have sq: "0 < sm * sm" "sm * sm \<le> 1000000"
  proof -
    show "0 < sm * sm" using sm(1) by simp
    have "sm * sm \<le> 765 * 765" using sm(1,2) by (intro mult_mono) simp_all
    then show "sm * sm \<le> 1000000" by simp
  qed
  have rb: "0 \<le> r * b" "r * b \<le> sm * sm"
    using assms sm by (simp_all add: mult_mono)
  have rg: "0 \<le> r * g" "r * g \<le> sm * sm"
    using assms sm by (simp_all add: mult_mono)
  have c2: "lit (107 / 1000) < fdiv (of_int (r * b)) (of_int (sm * sm)) \<longleftrightarrow>
            (107 / 1000 :: rat) < of_int (r * b) / of_int (sm * sm)"
    using quotient_cmp [OF rb(1) sq(1) rb(2) sq(2), of 107] by simp
  have c3: "lit (112 / 1000) < fdiv (of_int (r * g)) (of_int (sm * sm)) \<longleftrightarrow>
            (112 / 1000 :: rat) < of_int (r * g) / of_int (sm * sm)"
    using quotient_cmp [OF rg(1) sq(1) rg(2) sq(2), of 112] by simp
  let ?c1 = "if fdiv (of_int g) (of_int sm) = 0 then 0 < fdiv (of_int r) (of_int sm)
             else lit (1185 / 1000) < fdiv (fdiv (of_int r) (of_int sm)) (fdiv (of_int g) (of_int sm))"
  let ?e1 = "(1185 / 1000 :: rat) < (of_int r / of_int sm) / (of_int g / of_int sm)"
  let ?e23 = "(107 / 1000 :: rat) < of_int (r * b) / of_int (sm * sm) \<and>
              (112 / 1000 :: rat) < of_int (r * g) / of_int (sm * sm)"
  have code: "normRgbClassifier r g b \<longleftrightarrow> ?c1 \<and> ?e23"
    unfolding normRgbClassifier_def Let_def sm_def [symmetric] c2 c3 by simp
  have spec: "spec_norm_rgb r g b \<longleftrightarrow> ?e1 \<and> ?e23"
    unfolding spec_norm_rgb_def Let_def sm_def [symmetric] using sm(1) by simp
  have "?c1 \<and> ?e23 \<longleftrightarrow> ?e1 \<and> ?e23"
  proof (cases "g = 0")
    case True
    then show ?thesis by simp
  next
    case False
    with assms have g: "0 < g" by simp
    have "(0::rat) < of_int g / of_int sm" using g sm(1) by simp
    then have ng: "fdiv (of_int g) (of_int sm) \<noteq> 0"
      unfolding fdiv_def using fl_sign(1) [of "of_int g / of_int sm"] by simp
    have e1: "?e1 \<longleftrightarrow> 237 * g < 200 * r"
    proof -
      have "(of_int r / of_int sm) / (of_int g / of_int sm) = (of_int r / of_int g :: rat)"
        using sm(1) by simp
      moreover have "(1185 / 1000 :: rat) < of_int r / of_int g \<longleftrightarrow>
                     (of_int (237 * g) :: rat) < of_int (200 * r)"
        using g by (simp add: field_simps)
      ultimately show ?thesis by (simp only: of_int_less_iff)
    qed
    show ?thesis
    proof (cases "200 * r = 237 * g")
      case False
      from ratio_cmp [OF assms(1,2) g assms(4) sm(1) False] e1 ng show ?thesis by simp
    next
      case True
      have m: "(237 * g) mod 200 = 0" using True [symmetric] by simp
      have "g \<in> {1..255}" using g assms by simp
      then have "g \<in> set [1..255]" by (simp only: set_upto)
      then have "(237 * g) mod 200 = 0 \<longrightarrow> g = 200"
        by (rule bspec [OF tie_green [unfolded list_all_iff]])
      with m have "g = 200" by (rule rev_mp)
      with True have rg': "r = 237" "g = 200" by simp_all
      have ne: "\<not> ?e1" using e1 rg' by simp
      have "\<not> ?c1" if e: "?e23"
      proof -
        have q: "(0::rat) < of_int sm * of_int sm" "(0::rat) < of_int sm" using sm(1) by simp_all
        have i2: "(107 / 1000 :: rat) < of_int (r * b) / of_int (sm * sm) \<longleftrightarrow>
                  (of_int (107 * (sm * sm)) :: rat) < of_int (1000 * (r * b))"
          using q by (simp add: field_simps)
        have i3: "(112 / 1000 :: rat) < of_int (r * g) / of_int (sm * sm) \<longleftrightarrow>
                  (of_int (112 * (sm * sm)) :: rat) < of_int (1000 * (r * g))"
          using q by (simp add: field_simps)
        from e have "107 * (sm * sm) < 1000 * (r * b)" "112 * (sm * sm) < 1000 * (r * g)"
          unfolding i2 i3 by (simp_all only: of_int_less_iff)
        then have h: "107 * ((437 + b) * (437 + b)) < 237000 * b \<and>
                      112 * ((437 + b) * (437 + b)) < 47400000"
          by (simp add: sm_def rg')
        have "b \<in> {0..255}" using assms by simp
        then have "b \<in> set [0..255]" by (simp only: set_upto)
        then have "107 * ((437 + b) * (437 + b)) < 237000 * b \<and>
                   112 * ((437 + b) * (437 + b)) < 47400000 \<longrightarrow> 162 \<le> b \<and> b \<le> 213"
          by (rule bspec [OF tie_range [unfolded list_all_iff]])
        with h have "162 \<le> b \<and> b \<le> 213" by (rule rev_mp)
        then have "599 \<le> sm" "sm \<le> 650" by (simp_all add: sm_def rg')
        from ratio_tie [OF this] ng show ?thesis by (simp add: rg')
      qed
      with ne show ?thesis by blast
    qed
  qed
  with code spec show ?thesis by simp
qed

subsection \<open>The three rules\<close>

lemma hsv_cmp:
  fixes r g b :: int
  assumes "0 \<le> r" "r \<le> 255" "0 \<le> g" "g \<le> 255" "0 \<le> b" "b \<le> 255" "r + g + b \<noteq> 0"
  shows "hsvClassifier r g b \<longleftrightarrow> spec_hsv_closed r g b"
proof -
  define mn where "mn = min r (min g b)"
  define sm where "sm = r + g + b"
  have mn: "0 \<le> mn" "3 * mn \<le> sm" using assms by (simp_all add: mn_def sm_def)
  have sm: "0 < sm" "sm \<le> 765" using assms by (simp_all add: sm_def)
  have mx: "max r (max g b) \<noteq> 0" using assms by auto
  have s: "saturation r g b = fsub 1 (fmul 3 (fdiv (of_int mn) (of_int sm)))"
    using mx by (simp add: saturation_def Let_def mn_def sm_def)
  have s': "spec_saturation r g b = 1 - 3 * (of_int mn / of_int sm)"
    using assms(7) by (simp add: spec_saturation_def Let_def mn_def sm_def)
  show ?thesis
    unfolding hsvClassifier_def spec_hsv_closed_def s s'
    using hue_cmp [OF assms(1-6)] sat_cmp [OF mn(1) sm(1) mn(2) sm(2)] by blast
qed

lemma isSkinPixel_exact:
  fixes r g b :: int
  assumes "0 \<le> r" "r \<le> 255" "0 \<le> g" "g \<le> 255" "0 \<le> b" "b \<le> 255"
  shows "isSkinPixel r g b \<longleftrightarrow> rgb_rule r g b \<or> spec_norm_rgb r g b \<or> spec_hsv_closed r g b"
proof (cases "r + g + b = 0")
  case True
  with assms have z: "r = 0" "g = 0" "b = 0" by simp_all
  show ?thesis
    by (simp add: z isSkinPixel_def rgb_rule_def spec_norm_rgb_def spec_hsv_closed_def spec_hue_def)
next
  case False
  show ?thesis
    unfolding isSkinPixel_classifiers norm_cmp [OF assms False] hsv_cmp [OF assms False]
    using False by simp
qed

text \<open>
  C3: For every pixel (r, g, b) of byte channels, the per-pixel skin test returns true if
  and only if at least one of three rules holds, each read over the real numbers: the RGB
  rule, the normalized-RGB rule (never for r + g + b = 0), or the HSV rule with
  0 < h < 35 and 0.23 < s <= 0.68, where h = 0 when max = min and s = 0 when the sum is 0.
  The upper bound of the saturation is not strict: for s exactly 0.68 the binary64
  computation of 1 - 3 * (min / sum) is below the literal 0.68.
\<close>

theorem isSkinPixel_is_or_of_exact_rules:
  fixes r g b :: byte
  shows "isSkinPixel (uint r) (uint g) (uint b) \<longleftrightarrow>
           rgb_rule (uint r) (uint g) (uint b) \<or>
           spec_norm_rgb (uint r) (uint g) (uint b) \<or>
           spec_hsv_closed (uint r) (uint g) (uint b)"
proof -
  have "uint r < 2 ^ 8" "uint g < 2 ^ 8" "uint b < 2 ^ 8"
    using uint_bounded [of r] uint_bounded [of g] uint_bounded [of b] by simp_all
  then have "uint r \<le> 255" "uint g \<le> 255" "uint b \<le> 255" by simp_all
  then show ?thesis by (intro isSkinPixel_exact) simp_all
qed

text \<open>
  The pixel (41, 26, 8) has saturation 1 - 3 * 8 / 75 = 0.68 exactly: none of the three
  rules with 0.23 < s < 0.68 holds of it, and the per-pixel test returns true.
\<close>

theorem strict_saturation_counterexample:
  "isSkinPixel 41 26 8 \<and> spec_saturation 41 26 8 = 68 / 100 \<and>
   \<not> (rgb_rule 41 26 8 \<or> spec_norm_rgb 41 26 8 \<or> spec_hsv 41 26 8)"
proof -
  have h: "spec_hue 41 26 8 = 360 / 11"
    by (simp add: spec_hue_def rmod_def Let_def floor_eq_iff)
  have s: "spec_saturation 41 26 8 = 68 / 100"
    by (simp add: spec_saturation_def Let_def)
  have "spec_hsv_closed 41 26 8" by (simp add: spec_hsv_closed_def h s)
  then have "isSkinPixel 41 26 8" using isSkinPixel_exact [of 41 26 8] by simp
  moreover have "\<not> rgb_rule 41 26 8" by (simp add: rgb_rule_def)
  moreover have "\<not> spec_norm_rgb 41 26 8" by (simp add: spec_norm_rgb_def Let_def)
  moreover have "\<not> spec_hsv 41 26 8" by (simp add: spec_hsv_def s)
  ultimately show ?thesis using s by simp
qed


section \<open>The pixel scan\<close>

lemma offset_in_range: "0 < stride img \<Longrightarrow> k * stride img < length (pixelData img) \<longleftrightarrow> k < nSamples img"
proof -
  assume s: "0 < stride img"
  define n where "n = stride img"
  define l where "l = length (pixelData img)"
  have "k * n < l \<longleftrightarrow> k < (l + n - 1) div n"
  proof
    assume "k * n < l"
    then have "(k + 1) * n \<le> l + n - 1" by (simp add: algebra_simps)
    then have "k + 1 \<le> (l + n - 1) div n"
      using s n_def by (metis less_eq_div_iff_mult_less_eq)
    then show "k < (l + n - 1) div n" by simp
  next
    assume "k < (l + n - 1) div n"
    then have "k + 1 \<le> (l + n - 1) div n" by simp
    then have "(k + 1) * n \<le> l + n - 1"
      using s n_def by (metis less_eq_div_iff_mult_less_eq)
    then show "k * n < l" using s n_def by (simp add: algebra_simps)
  qed
  then show ?thesis by (simp add: nSamples_def n_def l_def)
qed

lemma skinCount_Suc:
  "skinCount img (Suc k) = skinCount img k + (if skinAt (pixelData img) (k * stride img) then 1 else 0)"
  by (simp add: skinCount_def)

lemma scanFrom_unfold:
  "scanFrom img i st =
    (if i < length (pixelData img) then
       if exitNow (skinPixels (scanStep img i st)) (totalPixels (scanStep img i st))
       then Some (scanStep img i st)
       else scanFrom img (i + stride img) (scanStep img i st)
     else Some st)"
  by (subst scanFrom.simps) (simp add: scanStep_def exitNow_def stride_def Let_def)

lemma scanStep_fields:
  "totalPixels (scanStep img i st) = Suc (totalPixels st)"
  "skinPixels (scanStep img i st) = skinPixels st + (if skinAt (pixelData img) i then 1 else 0)"
  "length (skinRegions (scanStep img i st)) =
     length (skinRegions st) + (if skinAt (pixelData img) i then 1 else 0)"
  by (simp_all add: scanStep_def Let_def)

lemma scan_run:
  assumes pos: "0 < stride img"
  shows "n = nSamples img - k \<Longrightarrow> k \<le> nSamples img \<Longrightarrow> totalPixels st = k \<Longrightarrow>
         skinPixels st = skinCount img k \<Longrightarrow> length (skinRegions st) = skinPixels st \<Longrightarrow>
         (\<forall>j. 0 < j \<and> j \<le> k \<longrightarrow> \<not> exitNow (skinCount img j) j) \<Longrightarrow>
         \<exists>st'. scanFrom img (k * stride img) st = Some st' \<and>
               totalPixels st' \<le> nSamples img \<and>
               skinPixels st' = skinCount img (totalPixels st') \<and>
               length (skinRegions st') = skinPixels st' \<and>
               (totalPixels st' < nSamples img \<longrightarrow> exitNow (skinPixels st') (totalPixels st')) \<and>
               (\<forall>j. 0 < j \<and> j < totalPixels st' \<longrightarrow> \<not> exitNow (skinCount img j) j)"
proof (induction n arbitrary: k st)
  case 0
  then have "k = nSamples img" by simp
  then have "\<not> k * stride img < length (pixelData img)"
    using offset_in_range [OF pos, of k] by simp
  then have "scanFrom img (k * stride img) st = Some st"
    by (subst scanFrom_unfold) simp
  with 0 show ?case by auto
next
  case (Suc n)
  then have lt: "k < nSamples img" by simp
  then have inr: "k * stride img < length (pixelData img)"
    using offset_in_range [OF pos, of k] by simp
  let ?st = "scanStep img (k * stride img) st"
  have tp: "totalPixels ?st = Suc k"
    using Suc.prems by (simp add: scanStep_fields)
  have sp: "skinPixels ?st = skinCount img (Suc k)"
    using Suc.prems by (simp add: scanStep_fields skinCount_Suc)
  have len: "length (skinRegions ?st) = skinPixels ?st"
    using Suc.prems by (simp add: scanStep_fields)
  show ?case
  proof (cases "exitNow (skinPixels ?st) (totalPixels ?st)")
    case True
    then have "scanFrom img (k * stride img) st = Some ?st"
      using inr by (subst scanFrom_unfold) simp
    moreover have "\<forall>j. 0 < j \<and> j < totalPixels ?st \<longrightarrow> \<not> exitNow (skinCount img j) j"
      using Suc.prems(6) tp by simp
    ultimately show ?thesis
      using True tp sp len lt by auto
  next
    case False
    then have step: "scanFrom img (k * stride img) st = scanFrom img (Suc k * stride img) ?st"
      using inr by (subst scanFrom_unfold) (simp add: add.commute)
    have all: "\<forall>j. 0 < j \<and> j \<le> Suc k \<longrightarrow> \<not> exitNow (skinCount img j) j"
      using Suc.prems(6) False tp sp by (auto simp: le_Suc_eq)
    have "n = nSamples img - Suc k" using Suc.prems(1) by simp
    from Suc.IH [OF this _ tp sp len all] lt
    show ?thesis by (simp add: step)
  qed
qed

lemma byteAt_nonneg: "byteAt d i = Some r \<Longrightarrow> 0 \<le> r"
  by (auto simp: byteAt_def split: if_splits)

lemma rgb_rule_skin: "rgb_rule r g b \<Longrightarrow> 0 \<le> g \<Longrightarrow> 0 \<le> b \<Longrightarrow> isSkinPixel r g b"
  by (auto simp: rgb_rule_def isSkinPixel_def Let_def)

lemma rgbAt_skinAt: "rgbAt img k \<Longrightarrow> skinAt (pixelData img) (k * stride img)"
  by (auto simp: rgbAt_def skinAt_def Let_def split: option.splits
           intro: rgb_rule_skin byteAt_nonneg)

lemma skinCount_all: "\<forall>j<k. skinAt (pixelData img) (j * stride img) \<Longrightarrow> skinCount img k = k"
  by (induction k) (simp_all add: skinCount_def)

lemma fl_one: "fl 1 = 1" by code_simp
lemma lit35_less_one: "lit (35 / 100) < 1" by code_simp

lemma exitNow_same: "0 < k \<Longrightarrow> exitNow k k \<longleftrightarrow> 100 < k"
  using lit35_less_one by (simp add: exitNow_def fdiv_def fl_one)

lemma all_skin_stops_at_101:
  assumes pos: "0 < stride img" and many: "100 < nSamples img"
    and rgb: "\<forall>k<nSamples img. rgbAt img k"
    and t: "totalPixels st \<le> nSamples img"
    and ex: "totalPixels st < nSamples img \<longrightarrow> exitNow (skinPixels st) (totalPixels st)"
    and first: "\<forall>j. 0 < j \<and> j < totalPixels st \<longrightarrow> \<not> exitNow (skinCount img j) j"
  shows "totalPixels st = 101"
proof -
  have cnt: "skinCount img k = k" if "k \<le> nSamples img" for k
    using that rgb by (intro skinCount_all) (auto intro: rgbAt_skinAt)
  have "\<not> 101 < totalPixels st"
  proof
    assume a: "101 < totalPixels st"
    then have "\<not> exitNow (skinCount img 101) 101" using first by simp
    moreover have "skinCount img 101 = 101" using a t by (intro cnt) simp
    ultimately show False by (simp add: exitNow_same)
  qed
  moreover have "\<not> totalPixels st < 101"
  proof
    assume a: "totalPixels st < 101"
    then have "exitNow (skinPixels st) (totalPixels st)" using ex many by simp
    then show False using a by (simp add: exitNow_def)
  qed
  ultimately show ?thesis by simp
qed

lemma many_samples_length: "0 < stride img \<Longrightarrow> 100 < nSamples img \<Longrightarrow> 100 * stride img < length (pixelData img)"
  using offset_in_range [of img 100] by simp

text \<open>
  C7. The scan visits the samples in order, one every 8 pixels, counting each in
  \<open>totalPixels\<close> and the skin ones in \<open>skinPixels\<close>, and returns at the first sample
  after which \<open>totalPixels > 100\<close> and \<open>skinPixels / totalPixels > 0.35\<close>, or at the end
  of the buffer. In particular, when more than 100 samples exist and each satisfies the
  RGB rule, it returns with at least 101 samples counted and at most a number of samples
  of one eighth of the buffer length. The channel count is at least 3, as the
  specification requires of the input.
\<close>

theorem pixel_scan_stops_early:
  assumes ch: "3 \<le> channels img"
  shows "\<exists>st. scanFrom img 0 scanStart = Some st \<and>
           totalPixels st \<le> nSamples img \<and>
           skinPixels st = skinCount img (totalPixels st) \<and>
           (totalPixels st < nSamples img \<longrightarrow> exitNow (skinPixels st) (totalPixels st)) \<and>
           (\<forall>j. 0 < j \<and> j < totalPixels st \<longrightarrow> \<not> exitNow (skinCount img j) j) \<and>
           (100 < nSamples img \<and> (\<forall>k<nSamples img. rgbAt img k) \<longrightarrow>
              101 \<le> totalPixels st \<and>
              (of_nat (totalPixels st) :: rat) \<le> of_nat (length (pixelData img)) / 8)"
proof -
  have pos: "0 < stride img" using ch by (simp add: stride_def)
  have "\<exists>st. scanFrom img (0 * stride img) scanStart = Some st \<and>
           totalPixels st \<le> nSamples img \<and>
           skinPixels st = skinCount img (totalPixels st) \<and>
           length (skinRegions st) = skinPixels st \<and>
           (totalPixels st < nSamples img \<longrightarrow> exitNow (skinPixels st) (totalPixels st)) \<and>
           (\<forall>j. 0 < j \<and> j < totalPixels st \<longrightarrow> \<not> exitNow (skinCount img j) j)"
    by (rule scan_run [OF pos refl]) (simp_all add: scanStart_def skinCount_def)
  then obtain st where st: "scanFrom img 0 scanStart = Some st"
      "totalPixels st \<le> nSamples img"
      "skinPixels st = skinCount img (totalPixels st)"
      "totalPixels st < nSamples img \<longrightarrow> exitNow (skinPixels st) (totalPixels st)"
      "\<forall>j. 0 < j \<and> j < totalPixels st \<longrightarrow> \<not> exitNow (skinCount img j) j"
    by auto
  have "101 \<le> totalPixels st \<and>
        (of_nat (totalPixels st) :: rat) \<le> of_nat (length (pixelData img)) / 8"
    if many: "100 < nSamples img" and rgb: "\<forall>k<nSamples img. rgbAt img k"
  proof -
    have t: "totalPixels st = 101"
      by (rule all_skin_stops_at_101 [OF pos many rgb st(2) st(4) st(5)])
    have "100 * stride img < length (pixelData img)"
      by (rule many_samples_length [OF pos many])
    then have "808 \<le> length (pixelData img)" using ch by (simp add: stride_def)
    then have "(808 :: rat) \<le> of_nat (length (pixelData img))"
      by (metis of_nat_le_iff of_nat_numeral)
    then show ?thesis using t by simp
  qed
  with st show ?thesis by blast
qed

lemma nth_concat_replicate:
  "xs \<noteq> [] \<Longrightarrow> i < n * length xs \<Longrightarrow> concat (replicate n xs) ! i = xs ! (i mod length xs)"
proof (induction n arbitrary: i)
  case 0
  then show ?case by simp
next
  case (Suc n)
  show ?case
  proof (cases "i < length xs")
    case True
    then show ?thesis by (simp add: nth_append)
  next
    case False
    then have "i - length xs < n * length xs" using Suc.prems by simp
    from Suc.IH [OF Suc.prems(1) this] False show ?thesis
      by (simp add: nth_append le_mod_geq)
  qed
qed

lemma witness_length: "length (pixelData witnessImage) = 2424"
  by (simp add: witnessImage_def length_concat sum_list_replicate)

lemma witness_samples: "nSamples witnessImage = 101"
  by (simp add: nSamples_def stride_def witness_length) (simp add: witnessImage_def)

lemma witness_byte:
  assumes "i < 2424"
  shows "byteAt (pixelData witnessImage) i = Some (uint ([200, 60, 30 :: byte] ! (i mod 3)))"
proof -
  have "concat (replicate 808 [200, 60, 30 :: byte]) ! i = [200, 60, 30] ! (i mod length [200, 60, 30 :: byte])"
    by (rule nth_concat_replicate) (use assms in simp_all)
  then show ?thesis
    using assms witness_length by (simp add: byteAt_def) (simp add: witnessImage_def)
qed

lemma witness_rgb: "\<forall>k<nSamples witnessImage. rgbAt witnessImage k"
proof (intro allI impI)
  fix k assume "k < nSamples witnessImage"
  then have k: "k < 101" by (simp add: witness_samples)
  have s: "stride witnessImage = 24" by (simp add: stride_def witnessImage_def)
  have m: "(k * 24) mod 3 = 0" "Suc (k * 24) mod 3 = 1" "Suc (Suc (k * 24)) mod 3 = 2"
    by presburger+
  have b: "byteAt (pixelData witnessImage) (k * 24) = Some 200"
     "byteAt (pixelData witnessImage) (Suc (k * 24)) = Some 60"
     "byteAt (pixelData witnessImage) (Suc (Suc (k * 24))) = Some 30"
    using k by (simp_all add: witness_byte m)
  show "rgbAt witnessImage k"
    by (simp add: rgbAt_def Let_def s b rgb_rule_def)
qed

theorem pixel_scan_stops_early_witness:
  "3 \<le> channels witnessImage \<and> 100 < nSamples witnessImage \<and>
   (\<exists>st. scanFrom witnessImage 0 scanStart = Some st \<and> totalPixels st = 101 \<and>
         skinPixels st = 101 \<and> 101 \<le> totalPixels st \<and>
         (of_nat (totalPixels st) :: rat) \<le> of_nat (length (pixelData witnessImage)) / 8)"
proof -
  have ch: "3 \<le> channels witnessImage" by (simp add: witnessImage_def)
  have many: "100 < nSamples witnessImage" by (simp add: witness_samples)
  from pixel_scan_stops_early [OF ch] many witness_rgb
  obtain st where st: "scanFrom witnessImage 0 scanStart = Some st"
      "skinPixels st = skinCount witnessImage (totalPixels st)"
      "totalPixels st \<le> nSamples witnessImage"
      "101 \<le> totalPixels st"
      "(of_nat (totalPixels st) :: rat) \<le> of_nat (length (pixelData witnessImage)) / 8"
    by blast
  then have t: "totalPixels st = 101" by (simp add: witness_samples)
  have "skinCount witnessImage 101 = 101"
    using witness_rgb by (intro skinCount_all) (auto simp: witness_samples intro: rgbAt_skinAt)
  with st t ch many show ?thesis by auto
qed

section \<open>The verdict of the skin classifier\<close>

lemma tier_values:
  "lit (9 / 10) = 8106479329266893 / 9007199254740992"
  "lit (7 / 10) = 3152519739159347 / 4503599627370496"
  "lit (5 / 10) = 1 / 2"
  "lit (3 / 10) = 5404319552844595 / 18014398509481984"
  by code_simp+

lemma tier_plus_values:
  "fadd (lit (9 / 10)) (lit (2 / 10)) = 2476979795053773 / 2251799813685248"
  "fadd (lit (7 / 10)) (lit (2 / 10)) = 2026619832316723 / 2251799813685248"
  "fadd (lit (5 / 10)) (lit (2 / 10)) = 3152519739159347 / 4503599627370496"
  "fadd (lit (3 / 10)) (lit (2 / 10)) = 1 / 2"
  by code_simp+

lemma tier_nonneg: "0 \<le> spec_tier p" "0 \<le> fadd (spec_tier p) (lit (2 / 10))"
  unfolding spec_tier_def using tier_values tier_plus_values by (auto split: if_splits)

lemma clamp_below_redundant:
  "max 0 (min (if l then fadd (spec_tier p) (lit (2 / 10)) else spec_tier p) 1) =
   min (if l then fadd (spec_tier p) (lit (2 / 10)) else spec_tier p) 1"
  using tier_nonneg [of p] by (simp add: max_def min_def)

lemma skinVerdict_spec:
  "skinVerdict st =
     \<lparr>isExplicit = spec_isExplicit (length (skinRegions st))
                     (rawPercentage (skinPixels st) (totalPixels st)),
      skinPercentage = round2 (rawPercentage (skinPixels st) (totalPixels st)),
      confidence = spec_confidence (length (skinRegions st))
                     (rawPercentage (skinPixels st) (totalPixels st))\<rparr>"
proof -
  have "skinVerdict st =
     \<lparr>isExplicit = spec_isExplicit (length (skinRegions st))
                     (rawPercentage (skinPixels st) (totalPixels st)),
      skinPercentage = round2 (rawPercentage (skinPixels st) (totalPixels st)),
      confidence = round2 (min (if spec_hasLargeSkinRegions (length (skinRegions st))
                                     (rawPercentage (skinPixels st) (totalPixels st))
                                then fadd (spec_tier (rawPercentage (skinPixels st) (totalPixels st)))
                                       (lit (2 / 10))
                                else spec_tier (rawPercentage (skinPixels st) (totalPixels st))) 1)\<rparr>"
    by (simp add: skinVerdict_def Let_def spec_isExplicit_def spec_hasLargeSkinRegions_def
          rawPercentage_def round2_def spec_tier_def)
  then show ?thesis
    by (simp only: spec_confidence_def clamp_below_redundant)
qed

text \<open>
  C2, as the code has it. For every decoded image with a positive channel count the scan
  completes, the number of recorded coordinates is \<open>skinPixels\<close>, and the classifier
  returns the verdict, the tiered confidence (plus 0.2 with large skin regions, clamped to
  \<open>[0,1]\<close>, rounded to 2 decimals) and the percentage rounded to 2 decimals, where the
  thresholds 15, 20, 25, 30, 35 and 40 are compared with the percentage
  \<open>skinPixels / totalPixels \<times> 100\<close> before it is rounded (0 when no pixel was sampled).
\<close>

theorem skin_classifier_verdict:
  assumes dec: "decode imageUrl = Inr img" and ch: "0 < channels img"
  shows "\<exists>st. scanFrom img 0 scanStart = Some st \<and>
              length (skinRegions st) = skinPixels st \<and>
              analyzeImageForExplicitContent decode imageUrl =
                Some \<lparr>isExplicit = spec_isExplicit (length (skinRegions st))
                                     (rawPercentage (skinPixels st) (totalPixels st)),
                      skinPercentage = round2 (rawPercentage (skinPixels st) (totalPixels st)),
                      confidence = spec_confidence (length (skinRegions st))
                                     (rawPercentage (skinPixels st) (totalPixels st))\<rparr>"
proof -
  have pos: "0 < stride img" using ch by (simp add: stride_def)
  have "\<exists>st. scanFrom img (0 * stride img) scanStart = Some st \<and>
           totalPixels st \<le> nSamples img \<and>
           skinPixels st = skinCount img (totalPixels st) \<and>
           length (skinRegions st) = skinPixels st \<and>
           (totalPixels st < nSamples img \<longrightarrow> exitNow (skinPixels st) (totalPixels st)) \<and>
           (\<forall>j. 0 < j \<and> j < totalPixels st \<longrightarrow> \<not> exitNow (skinCount img j) j)"
    by (rule scan_run [OF pos refl]) (simp_all add: scanStart_def skinCount_def)
  then obtain st where st: "scanFrom img 0 scanStart = Some st"
      "length (skinRegions st) = skinPixels st"
    by auto
  have "analyzeImageForExplicitContent decode imageUrl = Some (skinVerdict st)"
    by (simp add: analyzeImageForExplicitContent_def dec st(1))
  with st show ?thesis
    by (subst (asm) skinVerdict_spec) blast
qed

lemma onePixel_scan:
  "scanFrom onePixelImage 0 scanStart =
     Some \<lparr>skinPixels = 1, totalPixels = 1, skinRegions = [(0, 0)]\<rparr>"
  by code_simp

theorem skin_classifier_verdict_witness:
  "(\<lambda>u. Inr onePixelImage :: fault + RawImage) ''u'' = Inr onePixelImage \<and>
   0 < channels onePixelImage \<and>
   analyzeImageForExplicitContent (\<lambda>u. Inr onePixelImage) ''u'' =
     Some \<lparr>isExplicit = True, skinPercentage = 100, confidence = lit (9 / 10)\<rparr>"
proof -
  have ch: "0 < channels onePixelImage" by (simp add: onePixelImage_def)
  have v: "spec_isExplicit (Suc 0) (rawPercentage (Suc 0) (Suc 0))"
      "round2 (rawPercentage (Suc 0) (Suc 0)) = 100"
      "spec_confidence (Suc 0) (rawPercentage (Suc 0) (Suc 0)) = lit (9 / 10)"
    by code_simp+
  from skin_classifier_verdict [of "\<lambda>u. Inr onePixelImage" "''u''", OF refl ch]
  show ?thesis
    by (auto simp add: onePixel_scan ch v)
qed

text \<open>
  The thresholds do not see the rounded percentage. With 152 skin pixels among 1013
  samples the percentage is 15.0049..., reported as 15: the classifier finds large skin
  regions (15.0049... > 15) and returns the confidence 0.5, while the formulas of C2 on the
  reported percentage 15 give 0.3.
\<close>

lemma pct_152_of_1013:
  "15 < rawPercentage 152 1013" "\<not> 20 < rawPercentage 152 1013"
  "round2 (rawPercentage 152 1013) = 15"
  "spec_skinPercentage 152 1013 = 15"
  by (simp add: rawPercentage_def spec_skinPercentage_def round2_def fdiv_def fmul_def, code_simp)+

lemma round2_half: "round2 (1 / 2) = 1 / 2" "round2 (lit (3 / 10)) = lit (3 / 10)"
  by code_simp+

theorem rounded_percentage_counterexample:
  "skinPercentage (skinVerdict scan_152_of_1013) = spec_skinPercentage 152 1013 \<and>
   spec_skinPercentage 152 1013 = 15 \<and>
   confidence (skinVerdict scan_152_of_1013) = 1 / 2 \<and>
   spec_confidence (length (skinRegions scan_152_of_1013)) (spec_skinPercentage 152 1013)
     = lit (3 / 10) \<and>
   lit (3 / 10) < 1 / 2"
proof -
  have raw: "rawPercentage (skinPixels scan_152_of_1013) (totalPixels scan_152_of_1013)
               = rawPercentage 152 1013"
    and len: "length (skinRegions scan_152_of_1013) = 152"
    by (simp_all add: scan_152_of_1013_def)
  have large: "spec_hasLargeSkinRegions 152 (rawPercentage 152 1013)"
    using pct_152_of_1013(1) by (simp add: spec_hasLargeSkinRegions_def)
  have tier: "spec_tier (rawPercentage 152 1013) = lit (3 / 10)"
    using pct_152_of_1013(1,2) by (simp add: spec_tier_def)
  have a: "spec_confidence 152 (rawPercentage 152 1013) = 1 / 2"
    unfolding spec_confidence_def
    by (simp only: large tier if_True tier_plus_values) (simp add: round2_half)
  have nolarge: "\<not> spec_hasLargeSkinRegions 152 15"
    by (simp add: spec_hasLargeSkinRegions_def)
  have tier15: "spec_tier 15 = lit (3 / 10)"
    by (simp add: spec_tier_def)
  have l: "lit (3 / 10) < 1 / 2" "0 \<le> lit (3 / 10)" "lit (3 / 10) \<le> 1"
    by (simp_all add: tier_values)
  have b: "spec_confidence 152 15 = lit (3 / 10)"
    unfolding spec_confidence_def using l
    by (simp only: nolarge tier15 if_False) (simp add: round2_half max_def min_def)
  show ?thesis
    by (simp only: skinVerdict_spec raw len pct_152_of_1013 a b l
          ImageAnalysisResult.select_convs simp_thms)
qed

section \<open>The text classifier\<close>

subsection \<open>Evaluating the character tests on lower-case letters and the space\<close>

lemma canonicalize_letters:
  "canonicalize CHR ''a'' = CHR ''A''" "canonicalize CHR ''b'' = CHR ''B''"
  "canonicalize CHR ''c'' = CHR ''C''" "canonicalize CHR ''d'' = CHR ''D''"
  "canonicalize CHR ''e'' = CHR ''E''" "canonicalize CHR ''f'' = CHR ''F''"
  "canonicalize CHR ''g'' = CHR ''G''" "canonicalize CHR ''h'' = CHR ''H''"
  "canonicalize CHR ''i'' = CHR ''I''" "canonicalize CHR ''j'' = CHR ''J''"
  "canonicalize CHR ''k'' = CHR ''K''" "canonicalize CHR ''l'' = CHR ''L''"
  "canonicalize CHR ''m'' = CHR ''M''" "canonicalize CHR ''n'' = CHR ''N''"
  "canonicalize CHR ''o'' = CHR ''O''" "canonicalize CHR ''p'' = CHR ''P''"
  "canonicalize CHR ''q'' = CHR ''Q''" "canonicalize CHR ''r'' = CHR ''R''"
  "canonicalize CHR ''s'' = CHR ''S''" "canonicalize CHR ''t'' = CHR ''T''"
  "canonicalize CHR ''u'' = CHR ''U''" "canonicalize CHR ''v'' = CHR ''V''"
  "canonicalize CHR ''w'' = CHR ''W''" "canonicalize CHR ''x'' = CHR ''X''"
  "canonicalize CHR ''y'' = CHR ''Y''" "canonicalize CHR ''z'' = CHR ''Z''"
  "canonicalize CHR '' '' = CHR '' ''"
  by code_simp+

lemma isWordChar_letters:
  "isWordChar CHR ''a''" "isWordChar CHR ''b''" "isWordChar CHR ''c''" "isWordChar CHR ''d''"
  "isWordChar CHR ''e''" "isWordChar CHR ''f''" "isWordChar CHR ''g''" "isWordChar CHR ''h''"
  "isWordChar CHR ''i''" "isWordChar CHR ''j''" "isWordChar CHR ''k''" "isWordChar CHR ''l''"
  "isWordChar CHR ''m''" "isWordChar CHR ''n''" "isWordChar CHR ''o''" "isWordChar CHR ''p''"
  "isWordChar CHR ''q''" "isWordChar CHR ''r''" "isWordChar CHR ''s''" "isWordChar CHR ''t''"
  "isWordChar CHR ''u''" "isWordChar CHR ''v''" "isWordChar CHR ''w''" "isWordChar CHR ''x''"
  "isWordChar CHR ''y''" "isWordChar CHR ''z''" "\<not> isWordChar CHR '' ''"
  by (simp_all add: isWordChar_def)

lemma isSpaceChar_letters:
  "\<not> isSpaceChar CHR ''a''" "\<not> isSpaceChar CHR ''b''" "\<not> isSpaceChar CHR ''c''"
  "\<not> isSpaceChar CHR ''d''" "\<not> isSpaceChar CHR ''e''" "\<not> isSpaceChar CHR ''f''"
  "\<not> isSpaceChar CHR ''g''" "\<not> isSpaceChar CHR ''h''" "\<not> isSpaceChar CHR ''i''"
  "\<not> isSpaceChar CHR ''j''" "\<not> isSpaceChar CHR ''k''" "\<not> isSpaceChar CHR ''l''"
  "\<not> isSpaceChar CHR ''m''" "\<not> isSpaceChar CHR ''n''" "\<not> isSpaceChar CHR ''o''"
  "\<not> isSpaceChar CHR ''p''" "\<not> isSpaceChar CHR ''q''" "\<not> isSpaceChar CHR ''r''"
  "\<not> isSpaceChar CHR ''s''" "\<not> isSpaceChar CHR ''t''" "\<not> isSpaceChar CHR ''u''"
  "\<not> isSpaceChar CHR ''v''" "\<not> isSpaceChar CHR ''w''" "\<not> isSpaceChar CHR ''x''"
  "\<not> isSpaceChar CHR ''y''" "\<not> isSpaceChar CHR ''z''" "isSpaceChar CHR '' ''"
  by (simp_all add: isSpaceChar_def)

lemma toLowerChar_letters:
  "toLowerChar CHR ''a'' = CHR ''a''" "toLowerChar CHR ''b'' = CHR ''b''"
  "toLowerChar CHR ''c'' = CHR ''c''" "toLowerChar CHR ''d'' = CHR ''d''"
  "toLowerChar CHR ''e'' = CHR ''e''" "toLowerChar CHR ''f'' = CHR ''f''"
  "toLowerChar CHR ''g'' = CHR ''g''" "toLowerChar CHR ''h'' = CHR ''h''"
  "toLowerChar CHR ''i'' = CHR ''i''" "toLowerChar CHR ''j'' = CHR ''j''"
  "toLowerChar CHR ''k'' = CHR ''k''" "toLowerChar CHR ''l'' = CHR ''l''"
  "toLowerChar CHR ''m'' = CHR ''m''" "toLowerChar CHR ''n'' = CHR ''n''"
  "toLowerChar CHR ''o'' = CHR ''o''" "toLowerChar CHR ''p'' = CHR ''p''"
  "toLowerChar CHR ''q'' = CHR ''q''" "toLowerChar CHR ''r'' = CHR ''r''"
  "toLowerChar CHR ''s'' = CHR ''s''" "toLowerChar CHR ''t'' = CHR ''t''"
  "toLowerChar CHR ''u'' = CHR ''u''" "toLowerChar CHR ''v'' = CHR ''v''"
  "toLowerChar CHR ''w'' = CHR ''w''" "toLowerChar CHR ''x'' = CHR ''x''"
  "toLowerChar CHR ''y'' = CHR ''y''" "toLowerChar CHR ''z'' = CHR ''z''"
  "toLowerChar CHR '' '' = CHR '' ''"
  by (simp_all add: toLowerChar_def)

lemmas letters = canonicalize_letters isWordChar_letters isSpaceChar_letters toLowerChar_letters

lemmas text_eval = EXPLICIT_KEYWORDS_def checkCategory_def checkKeyword_def regexTest_def
  matchAt_def wordBoundary_def isWordAt_def firstChar_def setAdd_def

lemma checkKeyword_count:
  "snd (snd (foldl (checkKeyword nt category) acc kws)) =
     snd (snd acc) + length (filter (keywordHit nt) kws)"
  by (induction kws arbitrary: acc)
     (auto simp: checkKeyword_def keywordHit_def split: prod.splits)

lemma checkCategory_count:
  "snd (snd (foldl (checkCategory nt) acc entries)) =
     snd (snd acc) +
     length (filter (\<lambda>(category, keyword). keywordHit nt keyword)
               (concat (map (\<lambda>(category, kws). map (Pair category) kws) entries)))"
proof (induction entries arbitrary: acc)
  case Nil
  then show ?case by simp
next
  case (Cons e entries)
  obtain category kws where e: "e = (category, kws)" by (cases e)
  have "snd (snd (checkCategory nt acc e)) = snd (snd acc) + length (filter (keywordHit nt) kws)"
    by (simp add: e checkCategory_def checkKeyword_count)
  moreover have "foldl (checkCategory nt) acc (e # entries) =
                 foldl (checkCategory nt) (checkCategory nt acc e) entries"
    by simp
  ultimately show ?case
    by (simp only: Cons.IH) (simp add: e comp_def)
qed

lemma analyzeTextContent_confidence:
  "snd (snd (analyzeTextContent text)) =
     min (fmul (of_nat (totalMatchCount (normalizeText text))) (lit (3 / 10))) 1"
proof -
  have "snd (snd (foldl (checkCategory (normalizeText text)) ([], [], 0) EXPLICIT_KEYWORDS))
          = totalMatchCount (normalizeText text)"
    by (simp add: checkCategory_count totalMatchCount_def keywordPairs_def)
  then show ?thesis
    by (auto simp add: analyzeTextContent_def Let_def split: prod.splits)
qed

lemma totalMatchCount_fold:
  "totalMatchCount nt = snd (snd (foldl (checkCategory nt) ([], [], 0) EXPLICIT_KEYWORDS))"
  by (simp add: checkCategory_count totalMatchCount_def keywordPairs_def)

lemma no_match_in_empty_text: "totalMatchCount [] = 0"
  by (simp add: totalMatchCount_fold text_eval)

lemma fl_zero: "fl 0 = 0"
  by (simp add: fl_def)

text \<open>
  C4. For every text the OCR engine returns (trimmed, as \<open>analyzeImageText\<close> passes it
  on; the empty text when there is none), the confidence is
  \<open>min(totalMatchCount \<times> 0.3, 1.0)\<close>, where \<open>totalMatchCount\<close> counts the (category,
  keyword) pairs of the catalog whose keyword matches the normalized text, by the
  word-boundary pattern or by containment, and \<open>hasExplicitText\<close> holds exactly when there
  is a detected word and the confidence exceeds 0.3.
\<close>

theorem text_classifier_confidence:
  assumes "recognize imageUrl = Inr dataText"
  shows "confidence_text (analyzeImageText recognize imageUrl) =
           min (fmul (of_nat (totalMatchCount
                  (normalizeText (case dataText of None \<Rightarrow> [] | Some t \<Rightarrow> trim t))))
                (lit (3 / 10))) 1 \<and>
         hasExplicitText (analyzeImageText recognize imageUrl) =
           (detectedWords (analyzeImageText recognize imageUrl) \<noteq> [] \<and>
            confidence_text (analyzeImageText recognize imageUrl) > lit (3 / 10))"
proof (cases "(case dataText of None \<Rightarrow> [] | Some t \<Rightarrow> trim t) = []")
  case True
  have "normalizeText [] = []"
    by (simp add: normalizeText_def trim_def toLowerCase_def replacePunctuation_def)
  with True assms show ?thesis
    by (simp add: analyzeImageText_def emptyTextAnalysis_def no_match_in_empty_text
          fmul_def fl_zero)
next
  case False
  with assms analyzeTextContent_confidence
    [of "case dataText of None \<Rightarrow> [] | Some t \<Rightarrow> trim t"]
  show ?thesis
    by (auto simp add: analyzeImageText_def Let_def split: prod.splits)
qed


lemma trim_letters_example:
  "trim ''porn'' = ''porn''"
  "trim ''this is a nude and sexual image'' = ''this is a nude and sexual image''"
  by (simp_all add: trim_def isSpaceChar_letters)

lemma normalizeText_example:
  "normalizeText ''porn'' = ''porn''"
  "normalizeText ''this is a nude and sexual image'' = ''this is a nude and sexual image''"
  by (simp_all add: normalizeText_def trim_def toLowerCase_def replacePunctuation_def letters)

lemma porn_matches:
  "foldl (checkCategory ''porn'') ([], [], 0) EXPLICIT_KEYWORDS =
     ([''porn'', ''porn''], [''sexual'', ''pornography''], 2)"
  by (simp add: letters text_eval)

lemma porn_count: "totalMatchCount ''porn'' = 2"
  by (simp only: totalMatchCount_fold porn_matches snd_conv)

lemma example_matches:
  "foldl (checkCategory ''this is a nude and sexual image'') ([], [], 0) EXPLICIT_KEYWORDS =
     ([''nude'', ''sex'', ''sexual''], [''nudity'', ''sexual''], 3)"
  by (simp add: letters text_eval)

lemma confidence_values:
  "fmul 2 (lit (3 / 10)) = lit (6 / 10)"
  "lit (6 / 10) = 5404319552844595 / 9007199254740992"
  "fmul 3 (lit (3 / 10)) = 2026619832316723 / 2251799813685248"
  by code_simp+

lemma example_content:
  "analyzeTextContent ''this is a nude and sexual image'' =
     ([''nude'', ''sex'', ''sexual''], [''nudity'', ''sexual''], fmul 3 (lit (3 / 10)))"
  by (simp add: analyzeTextContent_def normalizeText_example example_matches setAdd_def)
     code_simp

theorem text_classifier_confidence_witness:
  "(\<lambda>u. Inr (Some ''porn'') :: fault + string option) ''u'' = Inr (Some ''porn'') \<and>
   totalMatchCount (normalizeText (trim ''porn'')) = 2 \<and>
   detectedWords (analyzeImageText (\<lambda>u. Inr (Some ''porn'')) ''u'') = [''porn''] \<and>
   confidence_text (analyzeImageText (\<lambda>u. Inr (Some ''porn'')) ''u'') = lit (6 / 10) \<and>
   hasExplicitText (analyzeImageText (\<lambda>u. Inr (Some ''porn'')) ''u'')"
proof -
  have c: "totalMatchCount (normalizeText (trim ''porn'')) = 2"
    by (simp only: trim_letters_example normalizeText_example porn_count)
  have d: "detectedWords (analyzeImageText (\<lambda>u. Inr (Some ''porn'')) ''u'') = [''porn'']"
    by (simp add: analyzeImageText_def trim_letters_example analyzeTextContent_def
          normalizeText_example porn_matches setAdd_def Let_def)
  have v: "min (fmul 2 (lit (3 / 10))) 1 = lit (6 / 10)" "lit (3 / 10) < lit (6 / 10)"
    by code_simp+
  from text_classifier_confidence [of "\<lambda>u. Inr (Some ''porn'')" "''u''" "Some ''porn''", OF refl]
  show ?thesis
    using v(2) by (simp add: c d v(1))
qed

text \<open>
  C5, as the code has it. In the text \<open>this is a nude and sexual image\<close> three keywords
  match: \<open>nude\<close>, \<open>sexual\<close> and also \<open>sex\<close>, which the substring test finds inside
  \<open>sexual\<close>. The categories are nudity and sexual, the detected words \<open>nude\<close>, \<open>sex\<close>
  and \<open>sexual\<close>, the confidence is \<open>min(3 \<times> 0.3, 1.0)\<close>, which is 0.8999999999999999 in
  binary64, and \<open>hasExplicitText\<close> is true.
\<close>

theorem example_text_classification:
  "analyzeImageText (\<lambda>u. Inr (Some ''this is a nude and sexual image'')) imageUrl =
     \<lparr>hasExplicitText = True,
      confidence_text = min (fmul 3 (lit (3 / 10))) 1,
      detectedWords = [''nude'', ''sex'', ''sexual''],
      categories = [''nudity'', ''sexual''],
      extractedText = ''this is a nude and sexual image''\<rparr> \<and>
   min (fmul 3 (lit (3 / 10))) 1 = 2026619832316723 / 2251799813685248"
  by (simp add: analyzeImageText_def trim_letters_example example_content Let_def)
     code_simp

text \<open>
  The confidence of that text is not \<open>min(2 \<times> 0.3, 1.0) = 0.6\<close>: the hit on \<open>sex\<close> is
  counted as well.
\<close>

theorem example_confidence_counterexample:
  "confidence_text
     (analyzeImageText (\<lambda>u. Inr (Some ''this is a nude and sexual image'')) ''u'')
     \<noteq> min (fmul 2 (lit (3 / 10))) 1 \<and>
   min (fmul 2 (lit (3 / 10))) 1 = lit (6 / 10) \<and>
   totalMatchCount (normalizeText ''this is a nude and sexual image'') = 3"
proof -
  have cnt: "totalMatchCount (normalizeText ''this is a nude and sexual image'') = 3"
    by (simp only: normalizeText_example totalMatchCount_fold example_matches snd_conv)
  have c: "confidence_text
             (analyzeImageText (\<lambda>u. Inr (Some ''this is a nude and sexual image'')) ''u'')
           = fmul 3 (lit (3 / 10))"
    by (simp add: analyzeImageText_def trim_letters_example example_content Let_def)
  have n: "min (fmul 2 (lit (3 / 10))) 1 = lit (6 / 10)"
      "fmul 3 (lit (3 / 10)) \<noteq> lit (6 / 10)"
    by code_simp+
  show ?thesis
    by (simp only: c cnt n simp_thms not_False_eq_True)
qed

section \<open>The single-image orchestrator\<close>

lemma analyzeImageFast_miss:
  "fst (lookupDetail now u st) = None \<Longrightarrow>
   analyzeImageFast skinC ocrC now u st = analyzeFresh skinC ocrC now u (snd (lookupDetail now u st))"
  by (cases "lookupDetail now u st") (auto simp: analyzeImageFast_def)

lemma lookup_after_cacheDetail:
  "fst (lookupDetail t u (cacheDetail (imageCacheKey u) r ttl now st)) =
     (if t \<le> now + ttl * 1000 then Some r else None)"
  by (simp add: lookupDetail_def cacheDetail_def safeGetCache_def safeSetCache_def)

lemma entry_after_cacheDetail:
  "images (cacheDetail key r ttl now st) key = Some \<lparr>data = r, expiry = now + ttl * 1000\<rparr>"
  by (simp add: cacheDetail_def safeSetCache_def)

lemma emptyStore_miss: "fst (lookupDetail now u emptyStore) = None"
  by (simp add: lookupDetail_def safeGetCache_def emptyStore_def)

text \<open>
  C1. On a cache miss, with a skin result that does not trigger the short-circuit, the
  result of \<open>analyzeImageFast\<close> has the confidence
  \<open>max(skinConfidence, textConfidence \<times> 0.8)\<close> and is explicit exactly when the skin
  result is or the text is explicit with a confidence above 0.4, where the text analysis
  is the one the OCR stage returned, or the empty one when that stage failed or timed out;
  the result is stored under the key of the URL with a lifetime of 300 seconds.
\<close>

theorem fast_analysis_combines:
  assumes miss: "fst (lookupDetail now imageUrl st) = None"
    and skin: "skinC imageUrl = Inr skinAnalysis"
    and noshort: "\<not> (isExplicit skinAnalysis \<and> confidence skinAnalysis > lit (7 / 10))"
    and ocr: "text = (case ocrC imageUrl of Inl e \<Rightarrow> emptyTextAnalysis | Inr t \<Rightarrow> t)"
    and res: "analyzeImageFast skinC ocrC now imageUrl st = (result, st')"
  shows "confidence result =
           max (confidence skinAnalysis) (fmul (confidence_text text) (lit (8 / 10))) \<and>
         isExplicit result =
           (isExplicit skinAnalysis \<or> (hasExplicitText text \<and> confidence_text text > lit (4 / 10))) \<and>
         skinPercentage result = skinPercentage skinAnalysis \<and>
         url result = imageUrl \<and>
         textAnalysis result = Some text \<and>
         images st' (imageCacheKey imageUrl) = Some \<lparr>data = result, expiry = now + 300 * 1000\<rparr> \<and>
         (\<forall>t. fst (lookupDetail t imageUrl st') =
                (if t \<le> now + 300 * 1000 then Some result else None))"
proof -
  let ?st1 = "snd (lookupDetail now imageUrl st)"
  let ?r = "\<lparr>isExplicit = (isExplicit skinAnalysis \<or>
                 (hasExplicitText text \<and> confidence_text text > lit (4 / 10))),
              skinPercentage = skinPercentage skinAnalysis,
              confidence = max (confidence skinAnalysis) (fmul (confidence_text text) (lit (8 / 10))),
              url = imageUrl, textAnalysis = Some text\<rparr>"
  have "analyzeFresh skinC ocrC now imageUrl ?st1 =
          (?r, cacheDetail (imageCacheKey imageUrl) ?r 300 now ?st1)"
    using skin noshort ocr by (auto simp add: analyzeFresh_def Let_def)
  with res miss have r: "result = ?r"
    and s: "st' = cacheDetail (imageCacheKey imageUrl) result 300 now ?st1"
    by (auto simp add: analyzeImageFast_miss)
  show ?thesis
    by (simp add: s lookup_after_cacheDetail entry_after_cacheDetail) (simp add: r)
qed

theorem fast_analysis_combines_witness:
  "fst (lookupDetail 0 ''u'' emptyStore) = None \<and>
   mildSkin ''u'' = Inr \<lparr>isExplicit = False, skinPercentage = 10, confidence = lit (3 / 10)\<rparr> \<and>
   confidence (fst (analyzeImageFast mildSkin explicitOcr 0 ''u'' emptyStore)) =
     max (lit (3 / 10)) (fmul (lit (6 / 10)) (lit (8 / 10))) \<and>
   isExplicit (fst (analyzeImageFast mildSkin explicitOcr 0 ''u'' emptyStore)) \<and>
   fst (lookupDetail 300000 ''u'' (snd (analyzeImageFast mildSkin explicitOcr 0 ''u'' emptyStore)))
     = Some (fst (analyzeImageFast mildSkin explicitOcr 0 ''u'' emptyStore)) \<and>
   fst (lookupDetail 300001 ''u'' (snd (analyzeImageFast mildSkin explicitOcr 0 ''u'' emptyStore)))
     = None"
proof -
  have v: "lit (4 / 10) < lit (6 / 10)" by code_simp
  have t: "(case explicitOcr ''u'' of Inl e \<Rightarrow> emptyTextAnalysis | Inr t \<Rightarrow> t) =
           \<lparr>hasExplicitText = True, confidence_text = lit (6 / 10), detectedWords = [''porn''],
            categories = [''sexual'', ''pornography''], extractedText = ''porn''\<rparr>"
    by (simp add: explicitOcr_def)
  from fast_analysis_combines [of 0 "''u''" emptyStore mildSkin
      "\<lparr>isExplicit = False, skinPercentage = 10, confidence = lit (3 / 10)\<rparr>" _ explicitOcr,
      OF emptyStore_miss _ _ t [symmetric] surjective_pairing]
  show ?thesis
    using v by (simp add: emptyStore_miss mildSkin_def)
qed

text \<open>
  C6. When the skin result is explicit with a confidence above 0.7, the OCR stage plays
  no part: \<open>analyzeImageFast\<close> returns the same result and store with any other OCR
  collaborator, the text analysis of the result is the empty one, and the result is
  stored with a lifetime of 300 seconds.
\<close>

theorem high_confidence_skips_ocr:
  assumes miss: "fst (lookupDetail now imageUrl st) = None"
    and skin: "skinC imageUrl = Inr skinAnalysis"
    and high: "isExplicit skinAnalysis" "confidence skinAnalysis > lit (7 / 10)"
    and res: "analyzeImageFast skinC ocrC now imageUrl st = (result, st')"
  shows "analyzeImageFast skinC ocrC' now imageUrl st = (result, st') \<and>
         result = \<lparr>isExplicit = True, skinPercentage = skinPercentage skinAnalysis,
                   confidence = confidence skinAnalysis, url = imageUrl,
                   textAnalysis = Some \<lparr>hasExplicitText = False, confidence_text = 0,
                     detectedWords = [], categories = [], extractedText = []\<rparr>\<rparr> \<and>
         images st' (imageCacheKey imageUrl) = Some \<lparr>data = result, expiry = now + 300 * 1000\<rparr> \<and>
         (\<forall>t. fst (lookupDetail t imageUrl st') =
                (if t \<le> now + 300 * 1000 then Some result else None))"
proof -
  let ?st1 = "snd (lookupDetail now imageUrl st)"
  let ?r = "\<lparr>isExplicit = True, skinPercentage = skinPercentage skinAnalysis,
              confidence = confidence skinAnalysis, url = imageUrl,
              textAnalysis = Some emptyTextAnalysis\<rparr>"
  have f: "analyzeFresh skinC ocr now imageUrl ?st1 =
          (?r, cacheDetail (imageCacheKey imageUrl) ?r 300 now ?st1)" for ocr
    using skin high by (simp add: analyzeFresh_def Let_def)
  from f [of ocrC] res miss have r: "result = ?r"
    and s: "st' = cacheDetail (imageCacheKey imageUrl) result 300 now ?st1"
    by (auto simp add: analyzeImageFast_miss)
  have "analyzeImageFast skinC ocrC' now imageUrl st = (result, st')"
    using f [of ocrC'] miss r s by (simp add: analyzeImageFast_miss)
  then show ?thesis
    by (simp add: s lookup_after_cacheDetail entry_after_cacheDetail)
       (simp add: r emptyTextAnalysis_def)
qed

theorem high_confidence_skips_ocr_witness:
  "fst (lookupDetail 0 ''u'' emptyStore) = None \<and>
   strongSkin ''u'' = Inr \<lparr>isExplicit = True, skinPercentage = 50, confidence = lit (9 / 10)\<rparr> \<and>
   lit (9 / 10) > lit (7 / 10) \<and>
   analyzeImageFast strongSkin timedOutOcr 0 ''u'' emptyStore =
     analyzeImageFast strongSkin explicitOcr 0 ''u'' emptyStore \<and>
   textAnalysis (fst (analyzeImageFast strongSkin explicitOcr 0 ''u'' emptyStore)) =
     Some \<lparr>hasExplicitText = False, confidence_text = 0,
           detectedWords = [], categories = [], extractedText = []\<rparr>"
proof -
  have v: "lit (9 / 10) > lit (7 / 10)" by code_simp
  have s: "strongSkin ''u'' = Inr \<lparr>isExplicit = True, skinPercentage = 50, confidence = lit (9 / 10)\<rparr>"
    by (simp add: strongSkin_def)
  from high_confidence_skips_ocr [of 0 "''u''" emptyStore strongSkin _ explicitOcr _ _ timedOutOcr,
      OF emptyStore_miss s _ _ surjective_pairing]
  show ?thesis
    using v by (simp add: emptyStore_miss s)
qed

text \<open>
  C9. When the skin classifier fails inside \<open>analyzeImageFast\<close>, the call still returns a
  result: the detail of the URL with every field false, zero or empty, stored with a
  lifetime of 60 seconds, where the result of a successful analysis of the same call is
  stored with a lifetime of 300 seconds.
\<close>

theorem fault_gives_zero_detail:
  assumes miss: "fst (lookupDetail now imageUrl st) = None"
    and fails: "skinC imageUrl = Inl e"
    and works: "skinC' imageUrl = Inr skinAnalysis"
  shows "fst (analyzeImageFast skinC ocrC now imageUrl st) =
           \<lparr>isExplicit = False, skinPercentage = 0, confidence = 0, url = imageUrl,
            textAnalysis = Some \<lparr>hasExplicitText = False, confidence_text = 0,
              detectedWords = [], categories = [], extractedText = []\<rparr>\<rparr> \<and>
         images (snd (analyzeImageFast skinC ocrC now imageUrl st)) (imageCacheKey imageUrl) =
           Some \<lparr>data = fst (analyzeImageFast skinC ocrC now imageUrl st),
                 expiry = now + 60 * 1000\<rparr> \<and>
         (\<forall>t. fst (lookupDetail t imageUrl (snd (analyzeImageFast skinC ocrC now imageUrl st))) =
                (if t \<le> now + 60 * 1000
                 then Some (fst (analyzeImageFast skinC ocrC now imageUrl st)) else None)) \<and>
         images (snd (analyzeImageFast skinC' ocrC now imageUrl st)) (imageCacheKey imageUrl) =
           Some \<lparr>data = fst (analyzeImageFast skinC' ocrC now imageUrl st),
                 expiry = now + 300 * 1000\<rparr>"
proof -
  let ?st1 = "snd (lookupDetail now imageUrl st)"
  have "analyzeFresh skinC ocrC now imageUrl ?st1 =
          (failedDetail imageUrl, cacheDetail (imageCacheKey imageUrl) (failedDetail imageUrl) 60 now ?st1)"
    using fails by (simp add: analyzeFresh_def Let_def)
  then have a: "analyzeImageFast skinC ocrC now imageUrl st =
          (failedDetail imageUrl, cacheDetail (imageCacheKey imageUrl) (failedDetail imageUrl) 60 now ?st1)"
    using miss by (simp add: analyzeImageFast_miss)
  have "\<exists>r. analyzeFresh skinC' ocrC now imageUrl ?st1 =
          (r, cacheDetail (imageCacheKey imageUrl) r 300 now ?st1)"
    using works by (simp add: analyzeFresh_def Let_def)
  then obtain r where b: "analyzeImageFast skinC' ocrC now imageUrl st =
          (r, cacheDetail (imageCacheKey imageUrl) r 300 now ?st1)"
    using miss by (auto simp add: analyzeImageFast_miss)
  show ?thesis
    by (simp add: a b lookup_after_cacheDetail entry_after_cacheDetail)
       (simp add: failedDetail_def emptyTextAnalysis_def)
qed

theorem fault_gives_zero_detail_witness:
  "fst (lookupDetail 0 ''u'' emptyStore) = None \<and>
   brokenSkin ''u'' = Inl (Fault ''skin classifier failed'') \<and>
   mildSkin ''u'' = Inr \<lparr>isExplicit = False, skinPercentage = 10, confidence = lit (3 / 10)\<rparr> \<and>
   confidence (fst (analyzeImageFast brokenSkin explicitOcr 0 ''u'' emptyStore)) = 0 \<and>
   map_option expiry
     (images (snd (analyzeImageFast brokenSkin explicitOcr 0 ''u'' emptyStore)) (imageCacheKey ''u''))
     = Some 60000 \<and>
   map_option expiry
     (images (snd (analyzeImageFast mildSkin explicitOcr 0 ''u'' emptyStore)) (imageCacheKey ''u''))
     = Some 300000"
proof -
  have b: "brokenSkin ''u'' = Inl (Fault ''skin classifier failed'')"
    by (simp add: brokenSkin_def)
  have m: "mildSkin ''u'' = Inr \<lparr>isExplicit = False, skinPercentage = 10, confidence = lit (3 / 10)\<rparr>"
    by (simp add: mildSkin_def)
  from fault_gives_zero_detail [of 0 "''u''" emptyStore brokenSkin _ mildSkin _ explicitOcr,
      OF emptyStore_miss b m]
  show ?thesis
    by (simp add: emptyStore_miss b m)
qed

section \<open>The batch orchestrator\<close>

lemma analyzeFresh_result_indep:
  "fst (analyzeFresh skinC ocrC now u s) = fst (analyzeFresh skinC ocrC now u s')"
  by (simp add: analyzeFresh_def Let_def split: sum.splits)

lemma analyzeImageFast_hit:
  "fst (lookupDetail now u s) = Some d \<Longrightarrow> fst (analyzeImageFast skinC ocrC now u s) = d"
  by (cases "lookupDetail now u s") (auto simp: analyzeImageFast_def)

lemma startAll_lookups:
  "startAll now us st = (ps, st') \<Longrightarrow>
   map fst ps = us \<and> (\<forall>p\<in>set ps. \<exists>s. snd p = fst (lookupDetail now (fst p) s))"
proof (induction us arbitrary: st ps st')
  case Nil
  then show ?case by simp
next
  case (Cons u us)
  obtain r st1 where l: "lookupDetail now u st = (r, st1)" by (cases "lookupDetail now u st")
  obtain rs st2 where s: "startAll now us st1 = (rs, st2)" by (cases "startAll now us st1")
  from Cons.prems l s have ps: "ps = (u, r) # rs" by simp
  have "\<exists>s. r = fst (lookupDetail now u s)" using l by (metis fst_conv)
  with Cons.IH [OF s] ps show ?case by auto
qed

lemma finishAll_results:
  "finishAll skinC ocrC now ps st = (ds, st') \<Longrightarrow>
   \<forall>p\<in>set ps. \<exists>s. snd p = fst (lookupDetail now (fst p) s) \<Longrightarrow>
   list_all2 (\<lambda>u d. \<exists>s. d = fst (analyzeImageFast skinC ocrC now u s)) (map fst ps) ds"
proof (induction skinC ocrC now ps st arbitrary: ds st' rule: finishAll.induct)
  case (1 skinC ocrC now st)
  then show ?case by simp
next
  case (2 skinC ocrC now u cachedResult ps st)
  obtain ds1 st1 where f: "finishAll skinC ocrC now ps st = (ds1, st1)"
    by (cases "finishAll skinC ocrC now ps st")
  from "2.prems"(1) f have ds: "ds = cachedResult # ds1" by simp
  from "2.prems"(2) obtain s where "Some cachedResult = fst (lookupDetail now u s)" by auto
  then have "cachedResult = fst (analyzeImageFast skinC ocrC now u s)"
    using analyzeImageFast_hit [of now u s cachedResult skinC ocrC] by simp
  moreover have "list_all2 (\<lambda>u d. \<exists>s. d = fst (analyzeImageFast skinC ocrC now u s)) (map fst ps) ds1"
    using "2.IH" [OF f] "2.prems"(2) by simp
  ultimately show ?case using ds by auto
next
  case (3 skinC ocrC now u ps st)
  obtain d st1 where a: "analyzeFresh skinC ocrC now u st = (d, st1)"
    by (cases "analyzeFresh skinC ocrC now u st")
  obtain ds1 st2 where f: "finishAll skinC ocrC now ps st1 = (ds1, st2)"
    by (cases "finishAll skinC ocrC now ps st1")
  from "3.prems"(1) a f have ds: "ds = d # ds1" by simp
  from "3.prems"(2) obtain s where "None = fst (lookupDetail now u s)" by auto
  then have m: "fst (lookupDetail now u s) = None" by simp
  have "fst (analyzeImageFast skinC ocrC now u s) =
        fst (analyzeFresh skinC ocrC now u (snd (lookupDetail now u s)))"
    using m by (simp add: analyzeImageFast_miss)
  also have "\<dots> = fst (analyzeFresh skinC ocrC now u st)"
    by (rule analyzeFresh_result_indep)
  finally have "d = fst (analyzeImageFast skinC ocrC now u s)" using a by simp
  moreover have "list_all2 (\<lambda>u d. \<exists>s. d = fst (analyzeImageFast skinC ocrC now u s)) (map fst ps) ds1"
    using "3.IH" [OF a [symmetric] f] "3.prems"(2) by simp
  ultimately show ?case using ds by auto
qed

lemma promiseAllFast_results:
  assumes "promiseAllFast skinC ocrC now batch st = (ds, st')"
  shows "list_all2 (\<lambda>u d. \<exists>s. d = fst (analyzeImageFast skinC ocrC now u s)) batch ds"
proof -
  obtain ps st1 where s: "startAll now batch st = (ps, st1)" by (cases "startAll now batch st")
  with assms have f: "finishAll skinC ocrC now ps st1 = (ds, st')"
    by (simp add: promiseAllFast_def)
  from startAll_lookups [OF s] finishAll_results [OF f] show ?thesis by simp
qed

lemma batchLoop_results:
  "batchLoop skinC ocrC now urls i results st = (rs, st') \<Longrightarrow>
   \<exists>new. rs = results @ new \<and>
     list_all2 (\<lambda>u d. \<exists>s. d = fst (analyzeImageFast skinC ocrC now u s)) (drop i urls) new"
proof (induction skinC ocrC now urls i results st arbitrary: rs st' rule: batchLoop.induct)
  case (1 skinC ocrC now imageUrls i results st)
  show ?case
  proof (cases "i < length imageUrls")
    case False
    with "1.prems" show ?thesis by (simp add: batchLoop.simps)
  next
    case True
    obtain bs st1 where p: "promiseAllFast skinC ocrC now (take 2 (drop i imageUrls)) st = (bs, st1)"
      by (cases "promiseAllFast skinC ocrC now (take 2 (drop i imageUrls)) st")
    with "1.prems" True
    have l: "batchLoop skinC ocrC now imageUrls (i + 2) (results @ bs) st1 = (rs, st')"
      by (simp add: batchLoop.simps)
    from "1.IH" [OF True p [symmetric] l] obtain new where
      new: "rs = (results @ bs) @ new"
        "list_all2 (\<lambda>u d. \<exists>s. d = fst (analyzeImageFast skinC ocrC now u s))
           (drop (i + 2) imageUrls) new"
      by blast
    have "drop 2 (drop i imageUrls) = drop (i + 2) imageUrls"
      by (simp add: add.commute)
    then have d: "take 2 (drop i imageUrls) @ drop (i + 2) imageUrls = drop i imageUrls"
      by (metis append_take_drop_id)
    have "list_all2 (\<lambda>u d. \<exists>s. d = fst (analyzeImageFast skinC ocrC now u s))
            (take 2 (drop i imageUrls) @ drop (i + 2) imageUrls) (bs @ new)"
      by (rule list_all2_appendI [OF promiseAllFast_results [OF p] new(2)])
    then have "list_all2 (\<lambda>u d. \<exists>s. d = fst (analyzeImageFast skinC ocrC now u s))
            (drop i imageUrls) (bs @ new)"
      by (simp only: d)
    with new(1) show ?thesis by auto
  qed
qed


subsection \<open>Aggregation\<close>

lemma set_foldl_setAdd: "set (foldl setAdd acc xs) = set acc \<union> set xs"
  by (induction xs arbitrary: acc) (auto simp: setAdd_def)

lemma set_foldl_addCategories:
  "set (foldl addCategories acc rs) =
     set acc \<union> (\<Union>d\<in>set rs. case textAnalysis d of None \<Rightarrow> {} | Some t \<Rightarrow> set (categories t))"
  by (induction rs arbitrary: acc)
     (auto simp: addCategories_def set_foldl_setAdd split: option.splits)

lemma max_of_filter:
  fixes f :: "'a \<Rightarrow> rat"
  shows "(case filter P rs of [] \<Rightarrow> 0 | x # xs \<Rightarrow> fold max (map f xs) (f x)) =
         (if \<exists>d\<in>set rs. P d then Max (f ` {d \<in> set rs. P d}) else 0)"
proof (cases "filter P rs")
  case Nil
  then have "\<not> (\<exists>d\<in>set rs. P d)" by (simp add: filter_empty_conv)
  with Nil show ?thesis by simp
next
  case (Cons x xs)
  then have ex: "\<exists>d\<in>set rs. P d"
    by (metis filter_empty_conv list.distinct(1))
  have "fold max (map f xs) (f x) = Max (set (f x # map f xs))"
    by (simp only: Max.set_eq_fold)
  also have "set (f x # map f xs) = f ` set (filter P rs)"
    by (simp add: Cons)
  also have "set (filter P rs) = {d \<in> set rs. P d}"
    by simp
  finally show ?thesis using Cons ex by simp
qed

lemma aggregate_spec:
  "details (aggregate rs) = rs \<and>
   hasExplicitContent (aggregate rs) =
     ((\<exists>d\<in>set rs. isExplicit d) \<or> (\<exists>d\<in>set rs. textIsExplicit d)) \<and>
   set (detectedCategories (aggregate rs)) =
     (\<Union>d\<in>set rs. case textAnalysis d of None \<Rightarrow> {} | Some t \<Rightarrow> set (categories t)) \<and>
   confidence_batch (aggregate rs) =
     max (if \<exists>d\<in>set rs. isExplicit d
          then Max (confidence ` {d \<in> set rs. isExplicit d}) else 0)
         (if \<exists>d\<in>set rs. textIsExplicit d
          then Max (textConfidenceOf ` {d \<in> set rs. textIsExplicit d}) else 0)"
proof -
  have e: "(0 < length (filter P rs)) = (\<exists>d\<in>set rs. P d)" for P :: "ImageAnalysisDetail \<Rightarrow> bool"
    by (simp add: filter_empty_conv)
  show ?thesis
    unfolding aggregate_def Let_def
    by (simp only: ExplicitContentAnalysis.select_convs e set_foldl_addCategories max_of_filter)
       simp
qed

subsection \<open>The batch entries of the store\<close>

lemma analyzeFresh_batches: "batches (snd (analyzeFresh skinC ocrC now u st)) = batches st"
  by (simp add: analyzeFresh_def Let_def cacheDetail_def split: sum.splits)

lemma lookupDetail_batches: "batches (snd (lookupDetail now u st)) = batches st"
  by (simp add: lookupDetail_def split: prod.splits)

lemma startAll_batches: "batches (snd (startAll now us st)) = batches st"
proof (induction us arbitrary: st)
  case Nil
  then show ?case by simp
next
  case (Cons u us)
  have "batches (snd (startAll now us (snd (lookupDetail now u st)))) = batches st"
    by (simp add: Cons.IH lookupDetail_batches)
  then show ?case by (simp split: prod.splits) (metis snd_conv)
qed

lemma finishAll_batches: "batches (snd (finishAll skinC ocrC now ps st)) = batches st"
proof (induction skinC ocrC now ps st rule: finishAll.induct)
  case (1 skinC ocrC now st)
  then show ?case by simp
next
  case (2 skinC ocrC now u cachedResult ps st)
  then show ?case by (auto split: prod.splits)
next
  case (3 skinC ocrC now u ps st)
  obtain d st1 where a: "analyzeFresh skinC ocrC now u st = (d, st1)"
    by (cases "analyzeFresh skinC ocrC now u st")
  have "batches st1 = batches st" using analyzeFresh_batches [of skinC ocrC now u st] a by simp
  with "3.IH" [OF a [symmetric]] a show ?case by (auto split: prod.splits)
qed

lemma promiseAllFast_batches: "batches (snd (promiseAllFast skinC ocrC now batch st)) = batches st"
  using startAll_batches [of now batch st]
  by (auto simp add: promiseAllFast_def finishAll_batches split: prod.splits)

lemma batchLoop_batches: "batches (snd (batchLoop skinC ocrC now urls i results st)) = batches st"
proof (induction skinC ocrC now urls i results st rule: batchLoop.induct)
  case (1 skinC ocrC now imageUrls i results st)
  show ?case
  proof (cases "i < length imageUrls")
    case False
    then show ?thesis by (simp add: batchLoop.simps)
  next
    case True
    obtain bs st1 where p: "promiseAllFast skinC ocrC now (take 2 (drop i imageUrls)) st = (bs, st1)"
      by (cases "promiseAllFast skinC ocrC now (take 2 (drop i imageUrls)) st")
    have "batches st1 = batches st"
      using promiseAllFast_batches [of skinC ocrC now "take 2 (drop i imageUrls)" st] p by simp
    with "1.IH" [OF True p [symmetric]] True p show ?thesis
      by (subst batchLoop.simps) simp
  qed
qed

lemma analyzeImagesBatch_miss:
  assumes miss: "fst (safeGetCache (batchCacheKey imageUrls) now (batches st)) = None"
    and res: "analyzeImagesBatch skinC ocrC now imageUrls st = (r, st')"
  shows "\<exists>rs. r = aggregate rs \<and>
           list_all2 (\<lambda>u d. \<exists>s. d = fst (analyzeImageFast skinC ocrC now u s)) imageUrls rs \<and>
           batches st' (batchCacheKey imageUrls) = Some \<lparr>data = r, expiry = now + 300 * 1000\<rparr>"
proof -
  obtain c where g: "safeGetCache (batchCacheKey imageUrls) now (batches st) = (None, c)"
    using miss by (cases "safeGetCache (batchCacheKey imageUrls) now (batches st)") simp
  obtain rs st1 where l: "batchLoop skinC ocrC now imageUrls 0 [] (st\<lparr>batches := c\<rparr>) = (rs, st1)"
    by (cases "batchLoop skinC ocrC now imageUrls 0 [] (st\<lparr>batches := c\<rparr>)")
  from res g l have r: "r = aggregate rs"
    and s: "st' = st1\<lparr>batches := safeSetCache (batchCacheKey imageUrls) r 300 now (batches st1)\<rparr>"
    by (auto simp add: analyzeImagesBatch_def Let_def)
  from batchLoop_results [OF l]
  have "list_all2 (\<lambda>u d. \<exists>s. d = fst (analyzeImageFast skinC ocrC now u s)) imageUrls rs"
    by simp
  moreover have "batches st' (batchCacheKey imageUrls) =
      Some \<lparr>data = r, expiry = now + 300 * 1000\<rparr>"
    by (simp add: s safeSetCache_def)
  ultimately show ?thesis using r by blast
qed


lemma emptyStore_batch_miss: "fst (safeGetCache key now (batches emptyStore)) = None"
  by (simp add: safeGetCache_def emptyStore_def)




text \<open>
  C10. The lists \<open>["a,b"]\<close> and \<open>["a", "b"]\<close> have the same batch key. A batch result
  computed for the first is returned for the second, from the cache, while the entry
  lives: its one detail does not match the two URLs asked for.
\<close>

theorem batch_key_collision:
  assumes miss: "fst (safeGetCache (batchCacheKey [''a,b'']) now (batches st)) = None"
    and res: "analyzeImagesBatch skinC ocrC now [''a,b''] st = (r, st')"
    and within: "now' \<le> now + 300 * 1000"
  shows "batchCacheKey [''a,b''] = batchCacheKey [''a'', ''b''] \<and>
         [''a,b''] \<noteq> [''a'', ''b''] \<and>
         analyzeImagesBatch skinC' ocrC' now' [''a'', ''b''] st' = (r, st') \<and>
         length (details r) = 1 \<and>
         map url (details r) \<noteq> [''a'', ''b'']"
proof -
  have k: "batchCacheKey [''a,b''] = batchCacheKey [''a'', ''b'']"
    by (simp add: batchCacheKey_def)
  from analyzeImagesBatch_miss [OF miss res] obtain rs where
    rs: "r = aggregate rs"
      "list_all2 (\<lambda>u d. \<exists>s. d = fst (analyzeImageFast skinC ocrC now u s)) [''a,b''] rs"
      "batches st' (batchCacheKey [''a,b'']) = Some \<lparr>data = r, expiry = now + 300 * 1000\<rparr>"
    by blast
  have d: "details r = rs" using rs(1) aggregate_spec [of rs] by simp
  have len: "length (details r) = 1"
    using rs(2) d by (auto dest: list_all2_lengthD)
  have "safeGetCache (batchCacheKey [''a'', ''b'']) now' (batches st') = (Some r, batches st')"
    using rs(3) within by (simp add: k [symmetric] safeGetCache_def)
  then have "analyzeImagesBatch skinC' ocrC' now' [''a'', ''b''] st' = (r, st')"
    by (simp add: analyzeImagesBatch_def Let_def)
  moreover have "map url (details r) \<noteq> [''a'', ''b'']"
    using len by (metis length_map list.size(3,4) One_nat_def Suc_1 n_not_Suc_n numeral_2_eq_2 add_is_1)
  ultimately show ?thesis using k len by simp
qed


theorem batch_key_collision_witness:
  "fst (safeGetCache (batchCacheKey [''a,b'']) 0 (batches emptyStore)) = None \<and>
   (1000 :: int) \<le> 0 + 300 * 1000 \<and>
   batchCacheKey [''a,b''] = batchCacheKey [''a'', ''b''] \<and>
   fst (analyzeImagesBatch brokenSkin timedOutOcr 1000 [''a'', ''b'']
          (snd (analyzeImagesBatch mildSkin explicitOcr 0 [''a,b''] emptyStore))) =
     fst (analyzeImagesBatch mildSkin explicitOcr 0 [''a,b''] emptyStore) \<and>
   length (details (fst (analyzeImagesBatch mildSkin explicitOcr 0 [''a,b''] emptyStore))) = 1"
proof -
  have w: "(1000 :: int) \<le> 0 + 300 * 1000" by simp
  from batch_key_collision [of 0 emptyStore mildSkin explicitOcr _ _ 1000 brokenSkin timedOutOcr,
      OF emptyStore_batch_miss surjective_pairing w]
  show ?thesis
    by (simp add: emptyStore_batch_miss)
qed

end
